theory Spec2Isabelle
  imports Main "HOL-Library.Char_ord" "HOL-Library.List_Lexorder"
begin

section \<open>The entry table (index.py)\<close>

text \<open>
  An \<open>Entry\<close> is the dataclass of index.py. Its three fields, in declaration order, are
  also the three columns of the table \<open>entry\<close>: \<open>_create_table_from\<close>,
  \<open>_insert_sql_from\<close> and \<open>_select_from\<close> all enumerate \<open>dataclasses.fields(Entry)\<close>,
  so a stored row is the tuple (filepath, filesize, md5hash).
  Strings are lists of characters; text columns are compared as SQLite's default BINARY
  collation compares them, which is the lexicographic order on character lists.
\<close>

record Entry =
  filePath :: string
  fileSize :: int
  md5Hash :: string

type_synonym row = "string \<times> int \<times> string"

definition tuple_getter :: "Entry \<Rightarrow> row" where
  "tuple_getter e = (filePath e, fileSize e, md5Hash e)"

definition Entry_of :: "row \<Rightarrow> Entry" where
  "Entry_of r = (case r of (p, s, h) \<Rightarrow> \<lparr>filePath = p, fileSize = s, md5Hash = h\<rparr>)"

text \<open>
  The sqlite3 connection, as far as the program observes it: the rows already committed,
  and the rows inserted by the transaction that is open, if one is. The module opens a
  transaction implicitly before the first INSERT and keeps it open until the connection's
  context manager commits it or rolls it back. Statements executed on the connection see
  the committed rows followed by its own uncommitted ones, in rowid order.
\<close>

record conn =
  committed :: "row list"
  pending :: "row list option"

definition table :: "conn \<Rightarrow> row list" where
  "table c = committed c @ (case pending c of None \<Rightarrow> [] | Some rs \<Rightarrow> rs)"

record Index =
  conn :: conn
  root :: string

subsection \<open>itertools.groupby and dict comprehensions\<close>

text \<open>
  \<open>groupby\<close> cuts its input into maximal runs of consecutive elements with equal keys.
  A dict keeps its keys in the order of their first insertion; storing under a key that is
  present replaces the value where it stands.
\<close>

function groupby :: "('a \<Rightarrow> 'k) \<Rightarrow> 'a list \<Rightarrow> ('k \<times> 'a list) list" where
  "groupby key [] = []"
| "groupby key (x # xs) =
     (key x, x # takeWhile (\<lambda>y. key y = key x) xs)
       # groupby key (dropWhile (\<lambda>y. key y = key x) xs)"
  by pat_completeness auto
termination
  by (relation "measure (\<lambda>(key, xs). length xs)")
     (auto simp: length_dropWhile_le less_Suc_eq_le)

fun dict_set :: "'k \<Rightarrow> 'v \<Rightarrow> ('k \<times> 'v) list \<Rightarrow> ('k \<times> 'v) list" where
  "dict_set k v [] = [(k, v)]"
| "dict_set k v (p # ps) = (if fst p = k then (k, v) # ps else p # dict_set k v ps)"

definition dict_of :: "('k \<times> 'v) list \<Rightarrow> ('k \<times> 'v) list" where
  "dict_of kvs = foldl (\<lambda>d kv. dict_set (fst kv) (snd kv) d) [] kvs"

subsection \<open>Index.duplicates and Index.duplicate_entries\<close>

text \<open>
  Both queries keep the rows whose md5hash occurs in more than one row
  (\<open>GROUP BY md5hash HAVING count(filepath) > 1\<close>; filepath is never NULL) and order them
  by md5hash. Rows with equal md5hash stay in rowid order. \<open>duplicates\<close> selects
  (md5hash, filepath), \<open>duplicate_entries\<close> selects (filepath, filesize, md5hash); both
  group the result by \<open>itemgetter(0)\<close>, the first selected column.
\<close>

definition count_hash :: "row list \<Rightarrow> string \<Rightarrow> nat" where
  "count_hash rows h = length (filter (\<lambda>r. snd (snd r) = h) rows)"

definition duplicate_rows :: "row list \<Rightarrow> row list" where
  "duplicate_rows rows =
     sort_key (\<lambda>r. snd (snd r)) (filter (\<lambda>r. 1 < count_hash rows (snd (snd r))) rows)"

definition duplicates :: "Index \<Rightarrow> (string \<times> string list) list" where
  "duplicates idx =
     (let result = map (\<lambda>r. (snd (snd r), fst r)) (duplicate_rows (table (conn idx)))
      in dict_of (map (\<lambda>(key, values). (key, map snd values)) (groupby fst result)))"

definition duplicate_entries :: "Index \<Rightarrow> (string \<times> Entry list) list" where
  "duplicate_entries idx =
     (let result = duplicate_rows (table (conn idx))
      in dict_of (map (\<lambda>(key, values). (key, map Entry_of values)) (groupby fst result)))"

definition entries :: "Index \<Rightarrow> Entry list" where
  "entries idx = map Entry_of (table (conn idx))"

definition find_filepaths_for_hash :: "Index \<Rightarrow> string \<Rightarrow> string list" where
  "find_filepaths_for_hash idx h = map fst (filter (\<lambda>r. snd (snd r) = h) (table (conn idx)))"

section \<open>Directory aggregation (__main__.py)\<close>

subsection \<open>os.path on POSIX: split, dirname, basename\<close>

text \<open>
  \<open>posixpath.split\<close> cuts a path after its last slash (\<open>i = p.rfind('/') + 1\<close>); the
  head loses its trailing slashes unless it consists of slashes only. \<open>dirname\<close> is the
  head computed the same way, \<open>basename\<close> is the tail. \<open>isabs\<close> is
  \<open>p.startswith('/')\<close>.
\<close>

definition rfind_sep1 :: "string \<Rightarrow> nat" where
  "rfind_sep1 p = length p - length (takeWhile (\<lambda>c. c \<noteq> CHR ''/'') (rev p))"

definition rstrip_sep :: "string \<Rightarrow> string" where
  "rstrip_sep s = rev (dropWhile (\<lambda>c. c = CHR ''/'') (rev s))"

definition path_split :: "string \<Rightarrow> string \<times> string" where
  "path_split p =
     (let i = rfind_sep1 p; head = take i p; tail = drop i p
      in (if head \<noteq> [] \<and> head \<noteq> replicate (length head) (CHR ''/'')
          then rstrip_sep head else head, tail))"

definition dirname :: "string \<Rightarrow> string" where
  "dirname p =
     (let i = rfind_sep1 p; head = take i p
      in if head \<noteq> [] \<and> head \<noteq> replicate (length head) (CHR ''/'')
         then rstrip_sep head else head)"

definition basename :: "string \<Rightarrow> string" where
  "basename p = drop (rfind_sep1 p) p"

definition isabs :: "string \<Rightarrow> bool" where
  "isabs p = (case p of [] \<Rightarrow> False | c # _ \<Rightarrow> c = CHR ''/'')"

text \<open>\<open>'/'.join(segs)\<close>: the path made of the given segments.\<close>

fun join_path :: "string list \<Rightarrow> string" where
  "join_path [] = []"
| "join_path [s] = s"
| "join_path (s # t # ss) = s @ CHR ''/'' # join_path (t # ss)"

text \<open>
  \<open>str.lower\<close>, on ASCII letters. Other characters are left as they are.
\<close>

definition ascii_lower :: "char \<Rightarrow> char" where
  "ascii_lower c =
     (case map_of (zip ''ABCDEFGHIJKLMNOPQRSTUVWXYZ'' ''abcdefghijklmnopqrstuvwxyz'') c of
        None \<Rightarrow> c | Some l \<Rightarrow> l)"

definition lower :: "string \<Rightarrow> string" where
  "lower s = map ascii_lower s"

subsection \<open>path_split_all\<close>

text \<open>
  The \<open>while True\<close> loop of \<open>path_split_all\<close>: split the path, return the list when the
  head is empty, otherwise append the head and go on with it. The loop has no other exit,
  so it is a partial function: \<open>None\<close> is the loop that never returns.
\<close>

partial_function (option) path_split_all_loop :: "string \<Rightarrow> string list \<Rightarrow> string list option" where
  "path_split_all_loop path l =
     (case path_split path of (path', name) \<Rightarrow>
        if path' = [] then Some l else path_split_all_loop path' (l @ [path']))"

declare path_split_all_loop.simps [code]

definition path_split_all :: "string \<Rightarrow> string list option" where
  "path_split_all path = path_split_all_loop path []"

subsection \<open>eval_dir_dups\<close>

text \<open>The exceptions that the modelled code can raise.\<close>

datatype error = UnicodeEncodeError | RuntimeError string | OSError | OverflowError
  | OperationalError

text \<open>
  \<open>str.encode("ascii")\<close> raises on a character outside ASCII; on ASCII text the bytes
  are the characters.
\<close>

definition encode_ascii :: "string \<Rightarrow> error + string" where
  "encode_ascii s =
     (if list_all (\<lambda>c. (of_char c :: nat) < 128) s then Inr s else Inl UnicodeEncodeError)"

text \<open>
  The \<open>defaultdict(hashlib.md5)\<close>: an insertion-ordered dictionary from directory path
  to a running digest. A running digest is represented by the bytes fed to it so far, and
  \<open>hexdigest\<close> is a function of those bytes; that function (MD5, from hashlib) is a
  parameter of \<open>eval_dir_dups\<close>. Looking up a missing key inserts an empty digest.
\<close>

fun md5_update :: "string \<Rightarrow> string \<Rightarrow> (string \<times> string) list \<Rightarrow> (string \<times> string) list" where
  "md5_update k b [] = [(k, b)]"
| "md5_update k b (p # ps) =
     (if fst p = k then (k, snd p @ b) # ps else p # md5_update k b ps)"

fun feed_parts :: "(string \<times> string) list \<Rightarrow> string list \<Rightarrow> string \<Rightarrow> error + (string \<times> string) list" where
  "feed_parts d [] h = Inr d"
| "feed_parts d (pathPart # rest) h =
     (case encode_ascii h of
        Inl err \<Rightarrow> Inl err
      | Inr b \<Rightarrow> feed_parts (md5_update pathPart b d) rest h)"

definition feed_entry :: "(string \<times> string) list \<Rightarrow> Entry \<Rightarrow> (error + (string \<times> string) list) option" where
  "feed_entry d entry =
     (if lower (basename (filePath entry)) \<noteq> ''thumbs.db''
      then (case path_split_all (filePath entry) of
              None \<Rightarrow> None
            | Some parts \<Rightarrow> Some (feed_parts d parts (md5Hash entry)))
      else Some (Inr d))"

fun feed_all :: "(string \<times> string) list \<Rightarrow> Entry list \<Rightarrow> (error + (string \<times> string) list) option" where
  "feed_all d [] = Some (Inr d)"
| "feed_all d (entry # rest) =
     (case feed_entry d entry of
        None \<Rightarrow> None
      | Some (Inl err) \<Rightarrow> Some (Inl err)
      | Some (Inr d') \<Rightarrow> feed_all d' rest)"

definition has_parent_with_same_hash :: "string \<Rightarrow> string \<Rightarrow> (string \<times> string) list \<Rightarrow> bool" where
  "has_parent_with_same_hash path hash dirs =
     (let parent = dirname path
      in if parent \<noteq> [] then map_of dirs parent = Some hash else False)"

text \<open>
  The rest of \<open>eval_dir_dups\<close>, from the dictionary of hex digests: drop the directories
  whose parent has the same digest (the test reads the dictionary as it was before the
  filter), sort the remaining items by digest, group them, and keep the groups with more
  than one path.
\<close>

definition find_dir_dups :: "(string \<times> string) list \<Rightarrow> (string \<times> string list) list" where
  "find_dir_dups d0 =
     (let d = filter (\<lambda>(path, hash). \<not> has_parent_with_same_hash path hash d0) d0;
          groups = map (\<lambda>(hash, paths). (hash, map fst paths)) (groupby snd (sort_key snd d))
      in dict_of (filter (\<lambda>(k, paths). 1 < length paths) groups))"

definition eval_dir_dups :: "(string \<Rightarrow> string) \<Rightarrow> Index \<Rightarrow> (error + (string \<times> string list) list) option" where
  "eval_dir_dups hexdigest idx =
     (case feed_all [] (entries idx) of
        None \<Rightarrow> None
      | Some (Inl err) \<Rightarrow> Some (Inl err)
      | Some (Inr d) \<Rightarrow>
          Some (Inr (find_dir_dups (map (\<lambda>(path, fed). (path, hexdigest fed)) d))))"

subsection \<open>Reference notions for paths\<close>

text \<open>
  A normalised relative path is made of one or more segments, none empty and none
  containing a slash. The proper ancestors of a path are its iterated \<open>dirname\<close>s, from
  the immediate parent upwards, for as long as they are non-empty and get shorter.
\<close>

definition valid_segs :: "string list \<Rightarrow> bool" where
  "valid_segs segs = (segs \<noteq> [] \<and> list_all (\<lambda>s. s \<noteq> [] \<and> CHR ''/'' \<notin> set s) segs)"

function parents :: "string \<Rightarrow> string list" where
  "parents p =
     (if dirname p = [] \<or> length p \<le> length (dirname p) then []
      else dirname p # parents (dirname p))"
  by pat_completeness auto
termination
  by (relation "measure length") auto

declare parents.simps [simp del]

subsection \<open>Reference notions for directory aggregation\<close>

text \<open>
  An entry counts for a directory when its file name is not the noise file name and the
  directory is one of its proper ancestors. The composite hash of a directory is the
  digest of the hashes of the entries that count for it, in storage order. A directory of
  the index is one for which some entry counts; it is pruned when its immediate parent
  has the same composite hash. \<open>reported\<close> collects the paths of a report.
\<close>

definition under :: "string \<Rightarrow> Entry \<Rightarrow> bool" where
  "under X e =
     (lower (basename (filePath e)) \<noteq> ''thumbs.db'' \<and> X \<in> set (parents (filePath e)))"

definition fed_bytes :: "Entry list \<Rightarrow> string \<Rightarrow> string" where
  "fed_bytes es X = concat (map md5Hash (filter (under X) es))"

definition composite_hash :: "(string \<Rightarrow> string) \<Rightarrow> Index \<Rightarrow> string \<Rightarrow> string" where
  "composite_hash hexdigest idx X = hexdigest (fed_bytes (entries idx) X)"

definition is_dir :: "Index \<Rightarrow> string \<Rightarrow> bool" where
  "is_dir idx X = list_ex (under X) (entries idx)"

definition pruned :: "(string \<Rightarrow> string) \<Rightarrow> Index \<Rightarrow> string \<Rightarrow> bool" where
  "pruned hexdigest idx X =
     (dirname X \<noteq> [] \<and> composite_hash hexdigest idx (dirname X) = composite_hash hexdigest idx X)"

definition reported :: "(string \<times> string list) list \<Rightarrow> string set" where
  "reported report = set (concat (map snd report))"

text \<open>The bytes a dictionary of running digests has received for a path so far.\<close>

definition fed_so_far :: "(string \<times> string) list \<Rightarrow> string \<Rightarrow> string" where
  "fed_so_far d X = (case map_of d X of None \<Rightarrow> [] | Some s \<Rightarrow> s)"

section \<open>Filters (index.py)\<close>

subsection \<open>fnmatch.translate and re.match\<close>

text \<open>
  \<open>fnmatch.translate\<close> turns a shell pattern into a regular expression: \<open>*\<close> matches any
  run of characters, \<open>?\<close> one character, \<open>[seq]\<close> one character of a class (negated by a
  leading \<open>!\<close>; a \<open>]\<close> right after the opening is a member; \<open>x-y\<close> is a range), and a
  \<open>[\<close> with no closing \<open>]\<close> stands for itself. The result is anchored at both ends by
  \<open>match\<close> and \<open>\Z\<close>. The model keeps the parsed pattern, a list of tokens, in place of
  the regular expression text, and matches it case-sensitively, as \<open>re\<close> does.
\<close>

datatype gtok = Star | AnyChar | Lit char | Cls bool "(char \<times> char) list"

fun class_items :: "string \<Rightarrow> (char \<times> char) list" where
  "class_items (lo # m # hi # rest) =
     (if m = CHR ''-'' then (lo, hi) # class_items rest
      else (lo, lo) # class_items (m # hi # rest))"
| "class_items (c # rest) = (c, c) # class_items rest"
| "class_items [] = []"

definition bracket_end :: "string \<Rightarrow> nat option" where
  "bracket_end rest =
     (let j0 = (if rest \<noteq> [] \<and> hd rest = CHR ''!'' then 1 else 0);
          j1 = (if j0 < length rest \<and> rest ! j0 = CHR '']'' then j0 + 1 else j0);
          j = j1 + length (takeWhile (\<lambda>c. c \<noteq> CHR '']'') (drop j1 rest))
      in if length rest \<le> j then None else Some j)"

function translate :: "string \<Rightarrow> gtok list" where
  "translate [] = []"
| "translate (c # rest) =
     (if c = CHR ''*'' then Star # translate rest
      else if c = CHR ''?'' then AnyChar # translate rest
      else if c = CHR ''['' then
        (case bracket_end rest of
           None \<Rightarrow> Lit (CHR ''['') # translate rest
         | Some j \<Rightarrow>
             (let stuff = take j rest
              in (if stuff \<noteq> [] \<and> hd stuff = CHR ''!''
                  then Cls True (class_items (tl stuff))
                  else Cls False (class_items stuff))
                 # translate (drop (Suc j) rest)))
      else Lit c # translate rest)"
  by pat_completeness auto
termination
  by (relation "measure length") auto

definition cls_match :: "bool \<Rightarrow> (char \<times> char) list \<Rightarrow> char \<Rightarrow> bool" where
  "cls_match neg items c = (neg \<noteq> list_ex (\<lambda>(lo, hi). lo \<le> c \<and> c \<le> hi) items)"

fun gmatch :: "gtok list \<Rightarrow> string \<Rightarrow> bool" where
  "gmatch [] s = (s = [])"
| "gmatch (Star # ts) [] = gmatch ts []"
| "gmatch (Star # ts) (x # s) = (gmatch ts (x # s) \<or> gmatch (Star # ts) s)"
| "gmatch (AnyChar # ts) [] = False"
| "gmatch (AnyChar # ts) (x # s) = gmatch ts s"
| "gmatch (Lit c # ts) [] = False"
| "gmatch (Lit c # ts) (x # s) = (x = c \<and> gmatch ts s)"
| "gmatch (Cls neg items # ts) [] = False"
| "gmatch (Cls neg items # ts) (x # s) = (cls_match neg items x \<and> gmatch ts s)"

text \<open>
  \<open>re.compile("|".join(...))\<close>: an alternation of translated patterns, kept as the list
  of its alternatives; \<open>match\<close> succeeds when one of them matches the whole string.
\<close>

definition re_match :: "gtok list list \<Rightarrow> string \<Rightarrow> bool" where
  "re_match rx s = list_ex (\<lambda>ts. gmatch ts s) rx"

definition fnmatchcase :: "string \<Rightarrow> string \<Rightarrow> bool" where
  "fnmatchcase name pat = gmatch (translate pat) name"

subsection \<open>The WHERE clause\<close>

text \<open>
  \<open>_whitecard_to_like\<close> is four \<open>str.replace\<close> calls in a row, each replacing one
  character everywhere. \<open>Filter.__init__\<close> splices the resulting LIKE patterns, as they
  are, between single quotes into the text of a WHERE clause. The model keeps the clause
  as an expression tree; \<open>sql_text\<close> is the text that the code builds for it. As long
  as no pattern contains a single quote, every pattern is the content of one SQL string
  literal and the text denotes the tree. SQLite's LIKE matches \<open>%\<close> with any run of
  characters and \<open>_\<close> with one character, and compares other characters without regard
  to ASCII case; the \<open>COLLATE\<close> annotation does not change that.
\<close>

definition replace_char :: "char \<Rightarrow> string \<Rightarrow> string \<Rightarrow> string" where
  "replace_char c r s = concat (map (\<lambda>x. if x = c then r else [x]) s)"

definition whitecard_to_like :: "string \<Rightarrow> string" where
  "whitecard_to_like wc =
     replace_char (CHR ''?'') ''_''
       (replace_char (CHR ''*'') ''%''
         (replace_char (CHR ''_'') ''__''
           (replace_char (CHR ''%'') ''%%'' wc)))"

fun sql_like :: "string \<Rightarrow> string \<Rightarrow> bool" where
  "sql_like [] s = (s = [])"
| "sql_like (p # ps) [] = (p = CHR ''%'' \<and> sql_like ps [])"
| "sql_like (p # ps) (x # s) =
     (if p = CHR ''%'' then sql_like ps (x # s) \<or> sql_like (p # ps) s
      else if p = CHR ''_'' then sql_like ps s
      else ascii_lower x = ascii_lower p \<and> sql_like ps s)"

datatype sqlexpr = SqlTrue | Like string | NotLike string
  | SqlOr "sqlexpr list" | SqlAnd "sqlexpr list"

fun sql_eval :: "sqlexpr \<Rightarrow> string \<Rightarrow> bool" where
  "sql_eval SqlTrue fp = True"
| "sql_eval (Like p) fp = sql_like p fp"
| "sql_eval (NotLike p) fp = (\<not> sql_like p fp)"
| "sql_eval (SqlOr es) fp = list_ex (\<lambda>e. sql_eval e fp) es"
| "sql_eval (SqlAnd es) fp = list_all (\<lambda>e. sql_eval e fp) es"

text \<open>\<open>sep.join(xs)\<close>, and the text of a clause.\<close>

fun str_join :: "string \<Rightarrow> string list \<Rightarrow> string" where
  "str_join sep [] = []"
| "str_join sep [s] = s"
| "str_join sep (s # t # ss) = s @ sep @ str_join sep (t # ss)"

fun sql_text :: "sqlexpr \<Rightarrow> string" where
  "sql_text SqlTrue = ''TRUE''"
| "sql_text (Like p) =
     ''filePath LIKE '' @ [CHR 0x27] @ p @ [CHR 0x27] @ '' COLLATE utf8_general_ci''"
| "sql_text (NotLike p) =
     ''filePath NOT LIKE '' @ [CHR 0x27] @ p @ [CHR 0x27] @ '' COLLATE utf8_general_ci''"
| "sql_text (SqlOr es) = ''('' @ str_join '') OR ('' (map sql_text es) @ '')''"
| "sql_text (SqlAnd es) = ''('' @ str_join '') AND ('' (map sql_text es) @ '')''"

fun quote_free :: "sqlexpr \<Rightarrow> bool" where
  "quote_free SqlTrue = True"
| "quote_free (Like p) = (CHR 0x27 \<notin> set p)"
| "quote_free (NotLike p) = (CHR 0x27 \<notin> set p)"
| "quote_free (SqlOr es) = list_all quote_free es"
| "quote_free (SqlAnd es) = list_all quote_free es"

subsection \<open>class Filter\<close>

text \<open>
  The fields \<open>includes\<close> and \<open>excludes\<close> hold the compiled regular expressions, or
  \<open>None\<close> for an empty pattern list; \<open>sql\<close> is the property returning \<open>where\<close>.
\<close>

record Filter =
  includes_re :: "gtok list list option"
  excludes_re :: "gtok list list option"
  sql :: sqlexpr

definition Filter_init :: "string list \<Rightarrow> string list \<Rightarrow> Filter" where
  "Filter_init incs excs =
     (let inc_exprs = (if incs \<noteq> []
            then [SqlOr (map (\<lambda>include. Like (whitecard_to_like include)) incs)] else []);
          exc_exprs = (if excs \<noteq> []
            then [SqlAnd (map (\<lambda>exclude. NotLike (whitecard_to_like exclude)) excs)] else []);
          exprs = inc_exprs @ exc_exprs
      in \<lparr>includes_re = (if incs \<noteq> [] then Some (map translate incs) else None),
          excludes_re = (if excs \<noteq> [] then Some (map translate excs) else None),
          sql = (if exprs \<noteq> [] then SqlAnd exprs else SqlTrue)\<rparr>)"

definition test :: "Filter \<Rightarrow> string \<Rightarrow> bool" where
  "test f path =
     (if (case excludes_re f of None \<Rightarrow> False | Some rx \<Rightarrow> re_match rx path) then False
      else (case includes_re f of None \<Rightarrow> True | Some rx \<Rightarrow> re_match rx path))"

subsection \<open>Index.unique_hashes and eval_missing\<close>

text \<open>
  \<open>unique_hashes\<close> executes the statement made of a fixed SELECT and the filter's
  clause. When the clause is free of single quotes the statement selects the rows that
  satisfy the clause. When a pattern contains a single quote, the quote ends its string
  literal early: SQLite then rejects the statement (sqlite3.OperationalError) or reads
  another clause out of it. What the engine returns for such a statement, an exception or
  the md5hash column of the rows it selects, is the parameter \<open>sqlite\<close>. The limits that
  a build of the SQLite library sets on a statement (the length of a LIKE pattern, the
  depth of an expression) are not modelled, and patterns are taken to be free of the NUL
  character, which the sqlite3 module refuses in a statement.
\<close>

definition unique_hashes ::
  "(string \<Rightarrow> row list \<Rightarrow> error + string list) \<Rightarrow> Index \<Rightarrow> Filter \<Rightarrow> error + string set" where
  "unique_hashes sqlite idx f =
     (if quote_free (sql f)
      then Inr (set (map (\<lambda>r. snd (snd r))
                  (filter (\<lambda>r. sql_eval (sql f) (fst r)) (table (conn idx)))))
      else (case sqlite (''SELECT DISTINCT md5hash FROM entry WHERE '' @ sql_text (sql f))
                  (table (conn idx)) of
              Inl err \<Rightarrow> Inl err
            | Inr hashes \<Rightarrow> Inr (set hashes)))"

text \<open>
  \<open>eval_missing\<close> asks the left index, then the right one; an exception of either query
  propagates. Its result is a dict built by iterating over a set, so the order of its
  keys is not determined; it is modelled as a finite map.
\<close>

definition eval_missing ::
  "(string \<Rightarrow> row list \<Rightarrow> error + string list) \<Rightarrow> Index \<Rightarrow> Index \<Rightarrow> Filter \<Rightarrow>
   error + (string \<rightharpoonup> string list)" where
  "eval_missing sqlite left right f =
     (case unique_hashes sqlite left f of
        Inl err \<Rightarrow> Inl err
      | Inr left_hashes \<Rightarrow>
          (case unique_hashes sqlite right f of
             Inl err \<Rightarrow> Inl err
           | Inr right_hashes \<Rightarrow>
               (let missing = right_hashes - left_hashes
                in if 5000 < card missing then Inl (RuntimeError ''Abort: too many hashes'')
                   else Inr (\<lambda>hash. if hash \<in> missing
                          then Some (find_filepaths_for_hash right hash) else None))))"

subsection \<open>Reference notions for filters\<close>

text \<open>
  A plain pattern uses the wildcards \<open>*\<close> and \<open>?\<close> only: it contains no bracket, none of
  LIKE's own wildcards \<open>%\<close> and \<open>_\<close>, and no single quote.
\<close>

definition plain :: "string \<Rightarrow> bool" where
  "plain p = list_all (\<lambda>c. c \<noteq> CHR ''%'' \<and> c \<noteq> CHR ''_'' \<and> c \<noteq> CHR ''['' \<and> c \<noteq> CHR 0x27) p"

text \<open>On plain patterns both translations work character by character.\<close>

definition like_char :: "char \<Rightarrow> char" where
  "like_char c = (if c = CHR ''?'' then CHR ''_'' else if c = CHR ''*'' then CHR ''%'' else c)"

definition glob_tok :: "char \<Rightarrow> gtok" where
  "glob_tok c = (if c = CHR ''*'' then Star else if c = CHR ''?'' then AnyChar else Lit c)"

section \<open>Building an index\<close>

subsection \<open>The store: Index.new, Index.add, the connection as a context manager\<close>

text \<open>
  \<open>Index.new\<close> on a file that does not exist yet: a store with an empty table and no
  open transaction (CREATE TABLE and CREATE INDEX run outside any transaction).
  \<open>Index.add\<close> executes the INSERT statement with the entry's fields in declaration
  order; the sqlite3 module opens a transaction before the first INSERT and refuses an
  integer outside the signed 64-bit range with OverflowError. Leaving the \<open>with\<close>
  block calls \<open>Index.__exit__\<close>, which passes its arguments on to the connection: the
  connection commits when no exception is in flight and rolls back otherwise, and the
  exception, if any, propagates.
\<close>

definition Index_new :: "string \<Rightarrow> Index" where
  "Index_new root_dir = \<lparr>conn = \<lparr>committed = [], pending = None\<rparr>, root = root_dir\<rparr>"

definition fits_int64 :: "int \<Rightarrow> bool" where
  "fits_int64 n = (- (2 ^ 63) \<le> n \<and> n < 2 ^ 63)"

definition execute_insert :: "row \<Rightarrow> conn \<Rightarrow> error + conn" where
  "execute_insert r c =
     (if fits_int64 (fst (snd r))
      then Inr (c\<lparr>pending := Some (case pending c of None \<Rightarrow> [r] | Some rs \<Rightarrow> rs @ [r])\<rparr>)
      else Inl OverflowError)"

definition add :: "Index \<Rightarrow> Entry \<Rightarrow> error + Index" where
  "add idx e =
     (case execute_insert (tuple_getter e) (conn idx) of
        Inl err \<Rightarrow> Inl err
      | Inr c \<Rightarrow> Inr (idx\<lparr>conn := c\<rparr>))"

definition conn_exit :: "error option \<Rightarrow> conn \<Rightarrow> conn" where
  "conn_exit exc c =
     (case pending c of
        None \<Rightarrow> c
      | Some rs \<Rightarrow>
          (if exc = None then c\<lparr>committed := committed c @ rs, pending := None\<rparr>
           else c\<lparr>pending := None\<rparr>))"

definition Index_exit :: "error option \<Rightarrow> Index \<Rightarrow> Index" where
  "Index_exit exc idx = idx\<lparr>conn := conn_exit exc (conn idx)\<rparr>"

subsection \<open>The file system\<close>

text \<open>
  What \<open>os.scandir\<close> and \<open>open\<close> show of a directory tree: a file has a name, its
  bytes (\<open>None\<close> when it cannot be opened or read) and its size; a directory has a name
  and its listing (\<open>None\<close> when it cannot be listed); anything else has a name only.
  The path of a listed entry is \<open>os.path.join\<close> of the scanned path and the name.
\<close>

datatype fsnode =
    File string "string option" int
  | Dir string "fsnode list option"
  | Other string

fun name :: "fsnode \<Rightarrow> string" where
  "name (File nm content sz) = nm"
| "name (Dir nm listing) = nm"
| "name (Other nm) = nm"

definition path_join :: "string \<Rightarrow> string \<Rightarrow> string" where
  "path_join a b = (if a = [] \<or> last a = CHR ''/'' then a @ b else a @ CHR ''/'' # b)"

subsection \<open>Index.entry_for_path and the scan of the index command\<close>

text \<open>
  \<open>entry_for_path\<close> hashes the file's bytes and records its path relative to the root
  and its size. MD5 (\<open>md5hex\<close>) and \<open>os.path.relpath\<close> are parameters.
  \<open>index_dir\<close> is the loop over one directory listing. Its result is the exception
  raised, if any, and the index as it is when the loop ends or the exception is raised.
\<close>

definition entry_for_path ::
  "(string \<Rightarrow> string) \<Rightarrow> (string \<Rightarrow> string \<Rightarrow> string) \<Rightarrow> Index \<Rightarrow> string \<Rightarrow>
   string option \<Rightarrow> int \<Rightarrow> error + Entry" where
  "entry_for_path md5hex relpath idx path content sz =
     (case content of
        None \<Rightarrow> Inl OSError
      | Some bytes \<Rightarrow>
          Inr \<lparr>filePath = relpath path (root idx), fileSize = sz, md5Hash = md5hex bytes\<rparr>)"

function index_dir ::
  "(string \<Rightarrow> string) \<Rightarrow> (string \<Rightarrow> string \<Rightarrow> string) \<Rightarrow> Filter \<Rightarrow> string \<Rightarrow>
   fsnode list \<Rightarrow> Index \<Rightarrow> error option \<times> Index" where
  "index_dir md5hex relpath f dir [] idx = (None, idx)"
| "index_dir md5hex relpath f dir (entry # rest) idx =
     (let path = path_join dir (name entry)
      in if \<not> test f path then index_dir md5hex relpath f dir rest idx
         else (case entry of
             File nm content sz \<Rightarrow>
               (case entry_for_path md5hex relpath idx path content sz of
                  Inl err \<Rightarrow> (Some err, idx)
                | Inr e \<Rightarrow>
                    (case add idx e of
                       Inl err \<Rightarrow> (Some err, idx)
                     | Inr idx' \<Rightarrow> index_dir md5hex relpath f dir rest idx'))
           | Dir nm listing \<Rightarrow>
               (case listing of
                  None \<Rightarrow> (Some OSError, idx)
                | Some children \<Rightarrow>
                    (case index_dir md5hex relpath f path children idx of
                       (Some err, idx') \<Rightarrow> (Some err, idx')
                     | (None, idx') \<Rightarrow> index_dir md5hex relpath f dir rest idx'))
           | Other nm \<Rightarrow> index_dir md5hex relpath f dir rest idx))"
  by pat_completeness auto
termination
  by (relation "measure (\<lambda>(md5hex, relpath, f, dir, nodes, idx). size_list size nodes)") auto

text \<open>
  A build session: the body of the \<open>with\<close> block of the \<open>index\<close> command, run on a
  store, followed by \<open>__exit__\<close>. \<open>index\<close> runs it on a new store.
\<close>

definition build_session ::
  "(string \<Rightarrow> string) \<Rightarrow> (string \<Rightarrow> string \<Rightarrow> string) \<Rightarrow> Filter \<Rightarrow> string \<Rightarrow>
   fsnode list option \<Rightarrow> Index \<Rightarrow> error option \<times> Index" where
  "build_session md5hex relpath f root_dir listing idx =
     (case (case listing of
              None \<Rightarrow> (Some OSError, idx)
            | Some nodes \<Rightarrow> index_dir md5hex relpath f root_dir nodes idx) of
        (exc, idx') \<Rightarrow> (exc, Index_exit exc idx'))"

definition index ::
  "(string \<Rightarrow> string) \<Rightarrow> (string \<Rightarrow> string \<Rightarrow> string) \<Rightarrow> Filter \<Rightarrow> string \<Rightarrow>
   fsnode list option \<Rightarrow> error option \<times> Index" where
  "index md5hex relpath f root_dir listing =
     build_session md5hex relpath f root_dir listing (Index_new root_dir)"

subsection \<open>Reference notions for the scan\<close>

text \<open>
  \<open>files_under\<close> lists every file of a tree with its path and the paths of the
  directories that enclose it, outermost first; it knows nothing of filters.
  \<open>accepted_files\<close> lists, in scan order, the files that are accepted together with all
  their enclosing directories.
\<close>

fun files_under :: "string \<Rightarrow> fsnode list \<Rightarrow> (string \<times> string list) list" where
  "files_under dir [] = []"
| "files_under dir (File nm content sz # rest) =
     (path_join dir nm, []) # files_under dir rest"
| "files_under dir (Dir nm None # rest) = files_under dir rest"
| "files_under dir (Dir nm (Some children) # rest) =
     map (\<lambda>(p, ancs). (p, path_join dir nm # ancs)) (files_under (path_join dir nm) children)
       @ files_under dir rest"
| "files_under dir (Other nm # rest) = files_under dir rest"

fun accepted_files :: "Filter \<Rightarrow> string \<Rightarrow> fsnode list \<Rightarrow> (string \<times> string option \<times> int) list" where
  "accepted_files f dir [] = []"
| "accepted_files f dir (File nm content sz # rest) =
     (if test f (path_join dir nm) then [(path_join dir nm, content, sz)] else [])
       @ accepted_files f dir rest"
| "accepted_files f dir (Dir nm None # rest) = accepted_files f dir rest"
| "accepted_files f dir (Dir nm (Some children) # rest) =
     (if test f (path_join dir nm) then accepted_files f (path_join dir nm) children else [])
       @ accepted_files f dir rest"
| "accepted_files f dir (Other nm # rest) = accepted_files f dir rest"

text \<open>
  The rows of the open transaction, and the row that the scan inserts for a readable
  file.
\<close>

definition pend :: "conn \<Rightarrow> row list" where
  "pend c = (case pending c of None \<Rightarrow> [] | Some rs \<Rightarrow> rs)"

definition file_row ::
  "(string \<Rightarrow> string) \<Rightarrow> (string \<Rightarrow> string \<Rightarrow> string) \<Rightarrow> string \<Rightarrow>
   string \<times> string option \<times> int \<Rightarrow> row" where
  "file_row md5hex relpath root_dir file =
     (case file of (p, content, sz) \<Rightarrow>
        (relpath p root_dir, sz, md5hex (case content of None \<Rightarrow> [] | Some bytes \<Rightarrow> bytes)))"

definition scan_ok ::
  "(string \<Rightarrow> string) \<Rightarrow> (string \<Rightarrow> string \<Rightarrow> string) \<Rightarrow> Filter \<Rightarrow> string \<Rightarrow>
   fsnode list \<Rightarrow> Index \<Rightarrow> error option \<Rightarrow> Index \<Rightarrow> bool" where
  "scan_ok md5hex relpath f dir nodes idx exc idx' =
     (root idx' = root idx \<and> committed (conn idx') = committed (conn idx) \<and>
      (\<exists>new sfx. pend (conn idx') = pend (conn idx) @ new \<and>
         map (file_row md5hex relpath (root idx)) (accepted_files f dir nodes) = new @ sfx \<and>
         (exc = None \<longrightarrow> sfx = [])))"

text \<open>
  A sequence of \<open>add\<close> calls on a store, stopping at the first one that raises.
\<close>

fun add_all :: "Index \<Rightarrow> Entry list \<Rightarrow> error + Index" where
  "add_all idx [] = Inr idx"
| "add_all idx (e # es) =
     (case add idx e of Inl err \<Rightarrow> Inl err | Inr idx' \<Rightarrow> add_all idx' es)"

text \<open>A small tree under the root r, and a relpath that strips the root and its slash.\<close>

definition tree1 :: "fsnode list" where
  "tree1 = [Dir ''skip'' (Some [File ''a.txt'' (Some ''A'') 1]), File ''b.txt'' (Some ''B'') 2,
     Dir ''bad'' None]"

definition strip_root :: "string \<Rightarrow> string \<Rightarrow> string" where
  "strip_root p r = drop (Suc (length r)) p"

section \<open>Sample inputs\<close>

definition idx1 :: Index where
  "idx1 = \<lparr>conn = \<lparr>committed = [(''a/x.txt'', 5, ''eb61''), (''b/x.txt'', 5, ''eb61''),
       (''c/y.txt'', 2, ''0cc1'')], pending = None\<rparr>, root = ''r''\<rparr>"

definition idx2 :: Index where
  "idx2 = \<lparr>conn = \<lparr>committed = [(''p/c/f.txt'', 1, ''aa''), (''q/g.txt'', 1, ''aa'')],
       pending = None\<rparr>, root = ''r''\<rparr>"

definition idx3 :: Index where
  "idx3 = \<lparr>conn = \<lparr>committed = [(''a.txt'', 1, ''h1''), (''tmp/b.TXT'', 2, ''h2'')],
       pending = None\<rparr>, root = ''r''\<rparr>"

text \<open>
  An index with a single file two directories deep, an index with a file three
  directories deep and a second file of the same content elsewhere, and an engine that
  rejects every statement it is given.
\<close>

definition idx4 :: Index where
  "idx4 = \<lparr>conn = \<lparr>committed = [(''p/c/f.txt'', 1, ''aa'')], pending = None\<rparr>, root = ''r''\<rparr>"

definition idx5 :: Index where
  "idx5 = \<lparr>conn = \<lparr>committed = [(''g/p/c/f.txt'', 1, ''aa''), (''q/x.txt'', 1, ''aa'')],
       pending = None\<rparr>, root = ''r''\<rparr>"

definition sqlite_refuses :: "string \<Rightarrow> row list \<Rightarrow> error + string list" where
  "sqlite_refuses stmt rows = Inl OperationalError"

text \<open>An engine that rejects a statement only on a table that has rows.\<close>

definition sqlite_picky :: "string \<Rightarrow> row list \<Rightarrow> error + string list" where
  "sqlite_picky stmt rows = (if rows = [] then Inr [] else Inl OperationalError)"

text \<open>The exclude pattern it's, with a single quote.\<close>

definition filter_quote :: Filter where
  "filter_quote = Filter_init [] [''it'' @ CHR 0x27 # ''s'']"

definition idx_empty :: Index where
  "idx_empty = \<lparr>conn = \<lparr>committed = [], pending = None\<rparr>, root = ''l''\<rparr>"

text \<open>An index of 5001 files with pairwise different hashes.\<close>

definition idx_big :: Index where
  "idx_big = \<lparr>conn = \<lparr>committed =
       map (\<lambda>n. (CHR ''f'' # replicate n (CHR ''x''), 0, replicate n (CHR ''a''))) [0..<5001],
       pending = None\<rparr>, root = ''r''\<rparr>"

section \<open>Grouping a sorted sequence\<close>

lemma takeWhile_sorted_eq:
  "sorted (map key xs) \<Longrightarrow> \<forall>y\<in>set xs. k \<le> key y \<Longrightarrow>
   takeWhile (\<lambda>y. key y = k) xs = filter (\<lambda>y. key y = k) xs"
proof (induction xs)
  case Nil
  then show ?case by simp
next
  case (Cons a xs)
  show ?case
  proof (cases "key a = k")
    case True
    with Cons show ?thesis by simp
  next
    case False
    with Cons.prems have "\<forall>y\<in>set xs. key y \<noteq> k" by fastforce
    then have "filter (\<lambda>y. key y = k) xs = []" by (simp add: filter_empty_conv)
    with False show ?thesis by simp
  qed
qed

lemma dropWhile_sorted_eq:
  "sorted (map key xs) \<Longrightarrow> \<forall>y\<in>set xs. k \<le> key y \<Longrightarrow>
   dropWhile (\<lambda>y. key y = k) xs = filter (\<lambda>y. key y \<noteq> k) xs"
proof (induction xs)
  case Nil
  then show ?case by simp
next
  case (Cons a xs)
  show ?case
  proof (cases "key a = k")
    case True
    with Cons show ?thesis by simp
  next
    case False
    with Cons.prems have "\<forall>y\<in>set xs. key y \<noteq> k" by fastforce
    then have "filter (\<lambda>y. key y \<noteq> k) xs = xs" by (simp add: filter_id_conv)
    with False show ?thesis by simp
  qed
qed

lemma remdups_adj_sorted_head:
  "sorted (map key xs) \<Longrightarrow> \<forall>y\<in>set xs. k \<le> key y \<Longrightarrow>
   remdups_adj (k # map key xs) = k # remdups_adj (map key (filter (\<lambda>y. key y \<noteq> k) xs))"
proof (induction xs)
  case Nil
  then show ?case by simp
next
  case (Cons a xs)
  show ?case
  proof (cases "key a = k")
    case True
    with Cons show ?thesis by simp
  next
    case False
    with Cons.prems have "\<forall>y\<in>set xs. key y \<noteq> k" by fastforce
    then have "filter (\<lambda>y. key y \<noteq> k) xs = xs" by (simp add: filter_id_conv)
    with False show ?thesis by simp
  qed
qed

lemma groupby_sorted:
  "sorted (map key xs) \<Longrightarrow>
   groupby key xs = map (\<lambda>k. (k, filter (\<lambda>x. key x = k) xs)) (remdups_adj (map key xs))"
proof (induction key xs rule: groupby.induct)
  case (1 key)
  then show ?case by simp
next
  case (2 key x xs)
  let ?D = "filter (\<lambda>y. key y \<noteq> key x) xs"
  from "2.prems" have srt: "sorted (map key xs)" and ge: "\<forall>y\<in>set xs. key x \<le> key y"
    by simp_all
  have tw: "takeWhile (\<lambda>y. key y = key x) xs = filter (\<lambda>y. key y = key x) xs"
    by (rule takeWhile_sorted_eq [OF srt ge])
  have dw: "dropWhile (\<lambda>y. key y = key x) xs = ?D"
    by (rule dropWhile_sorted_eq [OF srt ge])
  have "sorted (map key ?D)" using srt by (rule sorted_filter)
  with "2.IH" dw have ih: "groupby key ?D =
      map (\<lambda>k. (k, filter (\<lambda>x. key x = k) ?D)) (remdups_adj (map key ?D))"
    by simp
  have rd: "remdups_adj (map key (x # xs)) = key x # remdups_adj (map key ?D)"
    using remdups_adj_sorted_head [OF srt ge] by simp
  have "\<And>k. k \<in> set (remdups_adj (map key ?D)) \<Longrightarrow>
      filter (\<lambda>y. key y = k) ?D = filter (\<lambda>y. key y = k) (x # xs)"
    by (auto intro: filter_cong)
  with ih have "groupby key ?D =
      map (\<lambda>k. (k, filter (\<lambda>y. key y = k) (x # xs))) (remdups_adj (map key ?D))"
    by simp
  with tw dw rd show ?case by simp
qed

lemma distinct_remdups_adj_sorted: "sorted xs \<Longrightarrow> distinct (remdups_adj xs)"
  by (induction xs rule: remdups_adj.induct) auto

lemma dict_set_fresh: "k \<notin> fst ` set d \<Longrightarrow> dict_set k v d = d @ [(k, v)]"
  by (induction d) auto

lemma foldl_dict_set_distinct:
  "distinct (map fst (acc @ kvs)) \<Longrightarrow>
   foldl (\<lambda>d kv. dict_set (fst kv) (snd kv) d) acc kvs = acc @ kvs"
proof (induction kvs arbitrary: acc)
  case Nil
  then show ?case by simp
next
  case (Cons kv kvs)
  from Cons.prems have fresh: "fst kv \<notin> fst ` set acc" by auto
  from Cons.prems have "distinct (map fst ((acc @ [kv]) @ kvs))" by simp
  from Cons.IH [OF this] fresh show ?case by (simp add: dict_set_fresh)
qed

lemma dict_of_distinct: "distinct (map fst kvs) \<Longrightarrow> dict_of kvs = kvs"
  using foldl_dict_set_distinct [of "[]" kvs] by (simp add: dict_of_def)

lemma sorted_hash_duplicate_rows: "sorted (map (\<lambda>r. snd (snd r)) (duplicate_rows rows))"
  unfolding duplicate_rows_def by (rule sorted_sort_key)

lemma set_hash_duplicate_rows:
  "set (map (\<lambda>r. snd (snd r)) (duplicate_rows rows)) = {h. 1 < count_hash rows h}"
proof -
  have "\<And>h. 1 < count_hash rows h \<Longrightarrow> \<exists>r\<in>set rows. snd (snd r) = h"
  proof -
    fix h assume "1 < count_hash rows h"
    then have "filter (\<lambda>r. snd (snd r) = h) rows \<noteq> []"
      by (auto simp: count_hash_def)
    then show "\<exists>r\<in>set rows. snd (snd r) = h"
      by (auto simp: filter_empty_conv)
  qed
  then show ?thesis
    unfolding duplicate_rows_def by (auto simp: image_iff)
qed

lemma filter_hash_duplicate_rows:
  "1 < count_hash rows k \<Longrightarrow>
   filter (\<lambda>r. snd (snd r) = k) (duplicate_rows rows) = filter (\<lambda>r. snd (snd r) = k) rows"
proof -
  assume dup: "1 < count_hash rows k"
  have "filter (\<lambda>r. snd (snd r) = k) (duplicate_rows rows) =
        filter (\<lambda>r. snd (snd r) = k) (filter (\<lambda>r. 1 < count_hash rows (snd (snd r))) rows)"
    unfolding duplicate_rows_def by (rule sort_key_stable)
  also have "\<dots> = filter (\<lambda>r. snd (snd r) = k) rows"
    using dup by (auto intro: filter_cong)
  finally show ?thesis .
qed

lemma duplicates_closed_form:
  "duplicates idx =
     map (\<lambda>k. (k, find_filepaths_for_hash idx k))
       (remdups_adj (map (\<lambda>r. snd (snd r)) (duplicate_rows (table (conn idx)))))"
proof -
  let ?rows = "table (conn idx)"
  let ?D = "duplicate_rows ?rows"
  let ?result = "map (\<lambda>r. (snd (snd r), fst r)) ?D"
  let ?keys = "remdups_adj (map (\<lambda>r. snd (snd r)) ?D)"
  have fst_result: "map fst ?result = map (\<lambda>r. snd (snd r)) ?D" by simp
  have "sorted (map fst ?result)"
    unfolding fst_result by (rule sorted_hash_duplicate_rows)
  then have g: "groupby fst ?result =
      map (\<lambda>k. (k, filter (\<lambda>x. fst x = k) ?result)) (remdups_adj (map fst ?result))"
    by (rule groupby_sorted)
  have paths: "map snd (filter (\<lambda>x. fst x = k) ?result) = find_filepaths_for_hash idx k"
    if "k \<in> set ?keys" for k
  proof -
    from that have "1 < count_hash ?rows k"
      using set_hash_duplicate_rows [of ?rows] by auto
    then have "filter (\<lambda>r. snd (snd r) = k) ?D = filter (\<lambda>r. snd (snd r) = k) ?rows"
      by (rule filter_hash_duplicate_rows)
    then show ?thesis
      by (simp add: filter_map comp_def find_filepaths_for_hash_def)
  qed
  have "map (\<lambda>(key, values). (key, map snd values)) (groupby fst ?result) =
        map (\<lambda>k. (k, map snd (filter (\<lambda>x. fst x = k) ?result))) ?keys"
    unfolding g fst_result by simp
  also have "\<dots> = map (\<lambda>k. (k, find_filepaths_for_hash idx k)) ?keys"
    using paths by simp
  finally have m: "map (\<lambda>(key, values). (key, map snd values)) (groupby fst ?result) =
        map (\<lambda>k. (k, find_filepaths_for_hash idx k)) ?keys" .
  have "distinct ?keys"
    by (rule distinct_remdups_adj_sorted) (rule sorted_hash_duplicate_rows)
  then have "distinct (map fst (map (\<lambda>k. (k, find_filepaths_for_hash idx k)) ?keys))"
    by (simp add: comp_def)
  then have "dict_of (map (\<lambda>k. (k, find_filepaths_for_hash idx k)) ?keys) =
      map (\<lambda>k. (k, find_filepaths_for_hash idx k)) ?keys"
    by (rule dict_of_distinct)
  with m show ?thesis by (simp add: duplicates_def Let_def)
qed


section \<open>The duplicate queries\<close>

text \<open>
  C5. For every index, \<open>duplicates\<close> returns no group of fewer than two paths; its keys
  are in strictly ascending order; the keys are exactly the hashes borne by at least two
  stored rows; and each key is mapped to the file paths of exactly the rows bearing it,
  in storage order.
\<close>

theorem duplicates_groups:
  "(\<forall>(k, ps) \<in> set (duplicates idx). 2 \<le> length ps) \<and>
   sorted_wrt (<) (map fst (duplicates idx)) \<and>
   set (map fst (duplicates idx)) = {h. 2 \<le> count_hash (table (conn idx)) h} \<and>
   (\<forall>(k, ps) \<in> set (duplicates idx).
      ps = map fst (filter (\<lambda>r. snd (snd r) = k) (table (conn idx))))"
proof -
  let ?rows = "table (conn idx)"
  let ?keys = "remdups_adj (map (\<lambda>r. snd (snd r)) (duplicate_rows ?rows))"
  have cf: "duplicates idx = map (\<lambda>k. (k, find_filepaths_for_hash idx k)) ?keys"
    by (rule duplicates_closed_form)
  have keys: "set ?keys = {h. 2 \<le> count_hash ?rows h}"
    using set_hash_duplicate_rows [of ?rows] by auto
  have fsts: "map fst (duplicates idx) = ?keys"
    unfolding cf by (simp add: comp_def)
  have c1: "\<forall>(k, ps) \<in> set (duplicates idx). 2 \<le> length ps"
    unfolding cf using keys
    by (auto simp: find_filepaths_for_hash_def count_hash_def)
  have c2: "sorted_wrt (<) (map fst (duplicates idx))"
    unfolding fsts strict_sorted_iff
    using sorted_hash_duplicate_rows [of ?rows]
    by (simp add: distinct_remdups_adj_sorted)
  have c3: "set (map fst (duplicates idx)) = {h. 2 \<le> count_hash ?rows h}"
    unfolding fsts by (rule keys)
  have c4: "\<forall>(k, ps) \<in> set (duplicates idx).
      ps = map fst (filter (\<lambda>r. snd (snd r) = k) ?rows)"
    unfolding cf by (auto simp: find_filepaths_for_hash_def)
  from c1 c2 c3 c4 show ?thesis by blast
qed

lemma duplicates_idx1: "duplicates idx1 = [(''eb61'', [''a/x.txt'', ''b/x.txt''])]"
  by (simp add: idx1_def duplicates_def duplicate_rows_def table_def count_hash_def dict_of_def)

theorem duplicates_groups_witness:
  "(''eb61'', [''a/x.txt'', ''b/x.txt'']) \<in> set (duplicates idx1) \<and>
   sorted_wrt (<) (map fst (duplicates idx1)) \<and>
   set (map fst (duplicates idx1)) = {h. 2 \<le> count_hash (table (conn idx1)) h}"
  using duplicates_groups [of idx1] by (simp add: duplicates_idx1)

text \<open>
  C1. On the index holding a/x.txt and b/x.txt with one hash (and a third file with
  another), \<open>duplicate_entries\<close> groups the selected rows by their first column, which
  is the file path: it returns one singleton group per path, keyed by the path, where
  \<open>duplicates\<close> returns one group keyed by the shared hash.
\<close>

theorem duplicate_entries_keyed_by_path:
  "duplicate_entries idx1 =
     [(''a/x.txt'', [\<lparr>filePath = ''a/x.txt'', fileSize = 5, md5Hash = ''eb61''\<rparr>]),
      (''b/x.txt'', [\<lparr>filePath = ''b/x.txt'', fileSize = 5, md5Hash = ''eb61''\<rparr>])] \<and>
   map fst (duplicate_entries idx1) \<noteq> map fst (duplicates idx1)"
  by (simp add: duplicates_idx1)
     (simp add: idx1_def duplicate_entries_def duplicate_rows_def table_def count_hash_def
        dict_of_def Entry_of_def)

section \<open>Splitting paths\<close>

lemma takeWhile_neq_upto: "c \<notin> set xs \<Longrightarrow> takeWhile (\<lambda>x. x \<noteq> c) (xs @ c # ys) = xs"
  by (induction xs) auto

lemma takeWhile_neq_all: "c \<notin> set xs \<Longrightarrow> takeWhile (\<lambda>x. x \<noteq> c) xs = xs"
  by (induction xs) auto

lemma rfind_sep1_last:
  "CHR ''/'' \<notin> set b \<Longrightarrow> rfind_sep1 (a @ CHR ''/'' # b) = Suc (length a)"
proof -
  assume "CHR ''/'' \<notin> set b"
  then have "takeWhile (\<lambda>c. c \<noteq> CHR ''/'') (rev b @ CHR ''/'' # rev a) = rev b"
    by (simp add: takeWhile_neq_upto)
  then show ?thesis by (simp add: rfind_sep1_def)
qed

lemma rfind_sep1_none: "CHR ''/'' \<notin> set p \<Longrightarrow> rfind_sep1 p = 0"
proof -
  assume "CHR ''/'' \<notin> set p"
  then have "takeWhile (\<lambda>c. c \<noteq> CHR ''/'') (rev p) = rev p"
    by (simp add: takeWhile_neq_all)
  then show ?thesis unfolding rfind_sep1_def by (simp only: length_rev diff_self_eq_0)
qed

lemma rstrip_sep_snoc: "rstrip_sep (a @ [CHR ''/'']) = rstrip_sep a"
  by (simp add: rstrip_sep_def)

lemma rstrip_sep_decomp: "\<exists>t. s = rstrip_sep s @ t \<and> set t \<subseteq> {CHR ''/''}"
proof -
  let ?P = "\<lambda>c. c = CHR ''/''"
  have "rev (takeWhile ?P (rev s) @ dropWhile ?P (rev s)) = s"
    by (simp only: takeWhile_dropWhile_id rev_rev_ident)
  then have "s = rstrip_sep s @ rev (takeWhile ?P (rev s))"
    by (simp only: rev_append rstrip_sep_def)
  moreover have "set (rev (takeWhile ?P (rev s))) \<subseteq> {CHR ''/''}"
    using set_takeWhileD [of _ ?P "rev s"] by auto
  ultimately show ?thesis by blast
qed

lemma rstrip_sep_last: "rstrip_sep s \<noteq> [] \<Longrightarrow> last (rstrip_sep s) \<noteq> CHR ''/''"
proof -
  let ?P = "\<lambda>c. c = CHR ''/''"
  assume "rstrip_sep s \<noteq> []"
  then have ne: "dropWhile ?P (rev s) \<noteq> []" by (simp add: rstrip_sep_def)
  then have "\<not> ?P (hd (dropWhile ?P (rev s)))" by (rule hd_dropWhile)
  with ne show ?thesis by (simp add: rstrip_sep_def last_rev)
qed

lemma rstrip_sep_id: "s \<noteq> [] \<Longrightarrow> last s \<noteq> CHR ''/'' \<Longrightarrow> rstrip_sep s = s"
  by (cases s rule: rev_cases) (simp_all add: rstrip_sep_def)

lemma all_sep_iff: "s = replicate (length s) (CHR ''/'') \<longleftrightarrow> set s \<subseteq> {CHR ''/''}"
  by (induction s) auto

lemma path_split_last:
  "CHR ''/'' \<notin> set b \<Longrightarrow>
   path_split (a @ CHR ''/'' # b) =
     (if set a \<subseteq> {CHR ''/''} then a @ [CHR ''/''] else rstrip_sep a, b)"
proof -
  assume b: "CHR ''/'' \<notin> set b"
  have "(a @ [CHR ''/''] = replicate (length (a @ [CHR ''/''])) (CHR ''/'')) = (set a \<subseteq> {CHR ''/''})"
    unfolding all_sep_iff by simp
  then show ?thesis
    using rfind_sep1_last [OF b, of a] rstrip_sep_snoc [of a]
    by (simp add: path_split_def Let_def del: replicate_Suc replicate.simps)
qed

lemma path_split_none: "CHR ''/'' \<notin> set p \<Longrightarrow> path_split p = ([], p)"
  by (simp add: path_split_def rfind_sep1_none)

lemma isabs_Cons: "isabs (c # cs) = (c = CHR ''/'')"
  by (simp add: isabs_def)

lemma rstrip_sep_prefix_hd:
  "\<not> set a \<subseteq> {CHR ''/''} \<Longrightarrow> rstrip_sep a \<noteq> [] \<and> hd (rstrip_sep a) = hd a"
proof -
  assume na: "\<not> set a \<subseteq> {CHR ''/''}"
  obtain t where t: "a = rstrip_sep a @ t" "set t \<subseteq> {CHR ''/''}"
    using rstrip_sep_decomp by blast
  have ne: "rstrip_sep a \<noteq> []"
  proof
    assume "rstrip_sep a = []"
    with t have "a = t" by simp
    with t(2) na show False by simp
  qed
  then have "hd (rstrip_sep a @ t) = hd (rstrip_sep a)" by simp
  with t(1) ne show ?thesis by simp
qed

lemma length_rstrip_sep: "length (rstrip_sep a) \<le> length a"
  using length_dropWhile_le [of "\<lambda>c. c = CHR ''/''" "rev a"] by (simp add: rstrip_sep_def)

lemma path_split_abs: "isabs p \<Longrightarrow> isabs (fst (path_split p))"
proof -
  assume ab: "isabs p"
  then obtain q where p: "p = CHR ''/'' # q"
    by (cases p) (auto simp: isabs_def)
  then have "CHR ''/'' \<in> set p" by simp
  then obtain a b where ab_eq: "p = a @ CHR ''/'' # b" and b: "CHR ''/'' \<notin> set b"
    using split_list_last by fastforce
  have hd_a: "a \<noteq> [] \<Longrightarrow> hd a = CHR ''/''"
    using p ab_eq by (cases a) auto
  show ?thesis
  proof (cases "set a \<subseteq> {CHR ''/''}")
    case True
    then have "isabs (a @ [CHR ''/''])" by (cases a) (auto simp: isabs_def)
    with True show ?thesis by (simp add: ab_eq path_split_last [OF b])
  next
    case False
    then have "a \<noteq> []" by auto
    with hd_a rstrip_sep_prefix_hd [OF False] have "isabs (rstrip_sep a)"
      by (cases "rstrip_sep a") (auto simp: isabs_def)
    with False show ?thesis by (simp add: ab_eq path_split_last [OF b])
  qed
qed

lemma path_split_rel:
  "\<not> isabs p \<Longrightarrow>
   fst (path_split p) = [] \<or>
   (length (fst (path_split p)) < length p \<and> \<not> isabs (fst (path_split p)))"
proof (cases "CHR ''/'' \<in> set p")
  case False
  then show ?thesis by (simp add: path_split_none)
next
  case True
  assume rel: "\<not> isabs p"
  from True obtain a b where ab_eq: "p = a @ CHR ''/'' # b" and b: "CHR ''/'' \<notin> set b"
    using split_list_last by fastforce
  have na: "\<not> set a \<subseteq> {CHR ''/''}"
  proof
    assume "set a \<subseteq> {CHR ''/''}"
    then have "isabs (a @ CHR ''/'' # b)" by (cases a) (auto simp: isabs_def)
    with rel ab_eq show False by simp
  qed
  then have a_ne: "a \<noteq> []" by auto
  have hd_a: "hd a \<noteq> CHR ''/''"
    using rel ab_eq a_ne by (cases a) (auto simp: isabs_def)
  have "\<not> isabs (rstrip_sep a)"
    using rstrip_sep_prefix_hd [OF na] hd_a by (cases "rstrip_sep a") (auto simp: isabs_def)
  moreover have "length (rstrip_sep a) < length p"
    using length_rstrip_sep [of a] ab_eq by simp
  ultimately show ?thesis using na by (simp add: ab_eq path_split_last [OF b])
qed

lemma path_split_all_loop_rel:
  "\<not> isabs p \<Longrightarrow> \<exists>r. path_split_all_loop p l = Some r"
proof (induction p arbitrary: l rule: length_induct)
  case (1 p)
  obtain h t where ht: "path_split p = (h, t)" by (cases "path_split p")
  show ?case
  proof (cases "h = []")
    case True
    with ht show ?thesis by (subst path_split_all_loop.simps) simp
  next
    case False
    with path_split_rel [OF "1.prems"] ht have "length h < length p" "\<not> isabs h" by auto
    with "1.IH" obtain r where "path_split_all_loop h (l @ [h]) = Some r" by blast
    with False ht show ?thesis by (subst path_split_all_loop.simps) simp
  qed
qed

lemma path_split_all_loop_Some_rel:
  "path_split_all_loop p l = Some r \<Longrightarrow> \<not> isabs p"
proof (rule path_split_all_loop.raw_induct [where P = "\<lambda>p l r. \<not> isabs p"], goal_cases)
  case (1 loop path l r)
  obtain h t where ht: "path_split path = (h, t)" by (cases "path_split path")
  show ?case
  proof (cases "h = []")
    case True
    with ht path_split_abs [of path] show ?thesis by (auto simp: isabs_def)
  next
    case False
    with 1(3) ht have "loop h (l @ [h]) = Some r" by simp
    then have "\<not> isabs h" by (rule 1(2))
    with ht path_split_abs [of path] show ?thesis by auto
  qed
qed assumption

lemma path_split_all_loop_abs: "isabs p \<Longrightarrow> path_split_all_loop p l = None"
  using path_split_all_loop_Some_rel [of p l] by (cases "path_split_all_loop p l") auto

lemma last_neq_if_notin: "x \<notin> set s \<Longrightarrow> s \<noteq> [] \<Longrightarrow> last s \<noteq> x"
  by (induction s) auto

lemma not_all_sep_if_last: "s \<noteq> [] \<Longrightarrow> last s \<noteq> CHR ''/'' \<Longrightarrow> \<not> set s \<subseteq> {CHR ''/''}"
  by (induction s) (auto split: if_splits)

lemma join_path_snoc: "ss \<noteq> [] \<Longrightarrow> join_path (ss @ [s]) = join_path ss @ CHR ''/'' # s"
  by (induction ss rule: join_path.induct) auto

lemma join_path_valid:
  "valid_segs ss \<Longrightarrow> join_path ss \<noteq> [] \<and> last (join_path ss) \<noteq> CHR ''/''"
proof (induction ss rule: rev_induct)
  case Nil
  then show ?case by (simp add: valid_segs_def)
next
  case (snoc s ss)
  then have s: "s \<noteq> []" "CHR ''/'' \<notin> set s" by (simp_all add: valid_segs_def)
  then have "last s \<noteq> CHR ''/''" by (simp add: last_neq_if_notin)
  with s show ?case by (cases "ss = []") (simp_all add: join_path_snoc)
qed

lemma path_split_join_snoc:
  "valid_segs ss \<Longrightarrow> CHR ''/'' \<notin> set s \<Longrightarrow>
   path_split (join_path (ss @ [s])) = (join_path ss, s)"
proof -
  assume v: "valid_segs ss" and s: "CHR ''/'' \<notin> set s"
  from v have ne: "ss \<noteq> []" by (simp add: valid_segs_def)
  from join_path_valid [OF v] have j: "join_path ss \<noteq> []" "last (join_path ss) \<noteq> CHR ''/''"
    by simp_all
  then have "\<not> set (join_path ss) \<subseteq> {CHR ''/''}"
    by (rule not_all_sep_if_last)
  moreover have "rstrip_sep (join_path ss) = join_path ss"
    using j by (rule rstrip_sep_id)
  ultimately show ?thesis
    by (simp add: join_path_snoc [OF ne] path_split_last [OF s])
qed

lemma path_split_all_loop_join:
  "valid_segs segs \<Longrightarrow>
   path_split_all_loop (join_path segs) l =
     Some (l @ map (\<lambda>k. join_path (take k segs)) (rev [1..<length segs]))"
proof (induction segs arbitrary: l rule: rev_induct)
  case Nil
  then show ?case by (simp add: valid_segs_def)
next
  case (snoc s ss)
  then have s: "s \<noteq> []" "CHR ''/'' \<notin> set s" by (simp_all add: valid_segs_def)
  show ?case
  proof (cases "ss = []")
    case True
    with s show ?thesis
      by (subst path_split_all_loop.simps) (simp add: path_split_none)
  next
    case False
    with snoc.prems have v: "valid_segs ss" by (simp add: valid_segs_def)
    have ps: "path_split (join_path (ss @ [s])) = (join_path ss, s)"
      using v s(2) by (rule path_split_join_snoc)
    have ne: "join_path ss \<noteq> []" using join_path_valid [OF v] by simp
    have "path_split_all_loop (join_path (ss @ [s])) l =
          path_split_all_loop (join_path ss) (l @ [join_path ss])"
      by (subst path_split_all_loop.simps) (simp add: ps ne)
    also have "\<dots> = Some ((l @ [join_path ss]) @
          map (\<lambda>k. join_path (take k ss)) (rev [1..<length ss]))"
      by (rule snoc.IH [OF v])
    also have "map (\<lambda>k. join_path (take k ss)) (rev [1..<length ss]) =
          map (\<lambda>k. join_path (take k (ss @ [s]))) (rev [1..<length ss])"
      by simp
    finally show ?thesis using False by (simp add: upt_rec [of 1] Suc_leI)
  qed
qed

lemma dirname_path_split: "dirname p = fst (path_split p)"
  by (simp add: dirname_def path_split_def Let_def)

lemma path_split_all_loop_parents:
  "\<not> isabs p \<Longrightarrow> path_split_all_loop p l = Some (l @ parents p)"
proof (induction p arbitrary: l rule: length_induct)
  case (1 p)
  obtain h t where ht: "path_split p = (h, t)" by (cases "path_split p")
  then have dn: "dirname p = h" by (simp add: dirname_path_split)
  show ?case
  proof (cases "h = []")
    case True
    with ht dn show ?thesis
      by (subst path_split_all_loop.simps, subst parents.simps) simp
  next
    case False
    with path_split_rel [OF "1.prems"] ht have h: "length h < length p" "\<not> isabs h" by auto
    with "1.IH" have "path_split_all_loop h (l @ [h]) = Some ((l @ [h]) @ parents h)" by blast
    with False ht dn h(1) show ?thesis
      by (subst path_split_all_loop.simps, subst parents.simps) simp
  qed
qed

lemma path_split_all_rel: "\<not> isabs p \<Longrightarrow> path_split_all p = Some (parents p)"
  by (simp add: path_split_all_def path_split_all_loop_parents)

lemma path_split_all_abs: "isabs p \<Longrightarrow> path_split_all p = None"
  by (simp add: path_split_all_def path_split_all_loop_abs)

lemma feed_all_total:
  "\<forall>e\<in>set es. \<not> isabs (filePath e) \<Longrightarrow> feed_all d es \<noteq> None"
proof (induction es arbitrary: d)
  case Nil
  then show ?case by simp
next
  case (Cons e es)
  then have "\<not> isabs (filePath e)" by simp
  then have "feed_entry d e \<noteq> None"
    by (simp add: feed_entry_def path_split_all_rel)
  with Cons show ?case by (auto split: option.splits sum.splits)
qed

lemma eval_dir_dups_total:
  "\<forall>e\<in>set (entries idx). \<not> isabs (filePath e) \<Longrightarrow> eval_dir_dups hexdigest idx \<noteq> None"
  using feed_all_total [of "entries idx" "[]"]
  by (auto simp: eval_dir_dups_def split: option.splits sum.splits)


section \<open>The ancestor walk\<close>

text \<open>
  C10. \<open>path_split_all\<close> returns for every path that does not start with a slash, and
  its result is the list of the path's proper ancestors, immediate parent first; for a
  path made of n slash-free non-empty segments that is the list of its prefixes of
  n - 1, ..., 1 segments. On a path that starts with a slash the loop never returns.
  Hence \<open>eval_dir_dups\<close> returns (a result or an error) on every index whose file paths
  are all relative.
\<close>

theorem path_split_all_terminates:
  "(\<not> isabs path \<longrightarrow> path_split_all path = Some (parents path)) \<and>
   (isabs path \<longrightarrow> path_split_all path = None) \<and>
   (valid_segs segs \<longrightarrow>
      path_split_all (join_path segs) =
        Some (map (\<lambda>k. join_path (take k segs)) (rev [1..<length segs]))) \<and>
   ((\<forall>e\<in>set (entries idx). \<not> isabs (filePath e)) \<longrightarrow>
      eval_dir_dups hexdigest idx \<noteq> None)"
  using path_split_all_rel [of path] path_split_all_abs [of path]
    path_split_all_loop_join [of segs "[]"] eval_dir_dups_total [of idx hexdigest]
  by (simp add: path_split_all_def)

theorem path_split_all_terminates_witness:
  "\<not> isabs ''a/b/c.txt'' \<and>
   path_split_all ''a/b/c.txt'' = Some [''a/b'', ''a''] \<and>
   isabs ''/a/b'' \<and>
   path_split_all ''/a/b'' = None \<and>
   valid_segs [''a'', ''b'', ''c.txt''] \<and>
   path_split_all (join_path [''a'', ''b'', ''c.txt'']) = Some [''a/b'', ''a''] \<and>
   list_all (\<lambda>e. \<not> isabs (filePath e)) (entries idx1) \<and>
   eval_dir_dups (\<lambda>b. b) idx1 \<noteq> None"
proof -
  have rel: "\<not> isabs ''a/b/c.txt''" and ab: "isabs ''/a/b''"
    by (simp_all add: isabs_def)
  have v: "valid_segs [''a'', ''b'', ''c.txt'']"
    by (simp add: valid_segs_def)
  have e: "list_all (\<lambda>e. \<not> isabs (filePath e)) (entries idx1)"
    by (simp add: entries_def idx1_def table_def Entry_of_def isabs_def)
  have p: "parents ''a/b/c.txt'' = [''a/b'', ''a'']"
    by (simp add: parents.simps dirname_def rfind_sep1_def rstrip_sep_def)
  have u: "rev [1..<length [''a'', ''b'', ''c.txt'']] = [2, 1]"
    by (simp add: upt_rec)
  from path_split_all_terminates [of "''a/b/c.txt''" "[''a'', ''b'', ''c.txt'']" idx1 "\<lambda>b. b"]
    path_split_all_terminates [of "''/a/b''" "[''a'', ''b'', ''c.txt'']" idx1 "\<lambda>b. b"]
    rel ab v e p u
  show ?thesis by (simp add: list_all_iff)
qed

section \<open>Grouping after sorting\<close>

lemma groupby_sort_key:
  "groupby key (sort_key key xs) =
     map (\<lambda>k. (k, filter (\<lambda>x. key x = k) xs)) (remdups_adj (map key (sort_key key xs)))"
proof -
  have "sorted (map key (sort_key key xs))" by (rule sorted_sort_key)
  then have "groupby key (sort_key key xs) =
     map (\<lambda>k. (k, filter (\<lambda>x. key x = k) (sort_key key xs)))
       (remdups_adj (map key (sort_key key xs)))"
    by (rule groupby_sorted)
  then show ?thesis by (simp add: sort_key_stable)
qed

lemma distinct_keys_sort_key: "distinct (remdups_adj (map key (sort_key key xs)))"
  by (rule distinct_remdups_adj_sorted) (rule sorted_sort_key)

lemma set_keys_sort_key: "set (remdups_adj (map key (sort_key key xs))) = key ` set xs"
  by simp

lemma filter_length_gt1:
  "distinct xs \<Longrightarrow> x \<in> set xs \<Longrightarrow> P x \<Longrightarrow>
   (1 < length (filter P xs)) = (\<exists>y\<in>set xs. y \<noteq> x \<and> P y)"
proof (induction xs)
  case Nil
  then show ?case by simp
next
  case (Cons a xs)
  show ?case
  proof (cases "a = x")
    case True
    with Cons.prems have "x \<notin> set xs" by simp
    then have "(\<exists>y\<in>set xs. y \<noteq> x \<and> P y) = (\<exists>y\<in>set xs. P y)" by auto
    with True Cons.prems show ?thesis
      by (auto simp: filter_empty_conv length_greater_0_conv [symmetric]
          simp del: length_greater_0_conv)
  next
    case False
    with Cons.prems have x: "x \<in> set xs" "distinct xs" by simp_all
    from x(1) Cons.prems(3) have "filter P xs \<noteq> []" by (auto simp: filter_empty_conv)
    then have pos: "0 < length (filter P xs)" by simp
    from Cons.IH [OF x(2) x(1) Cons.prems(3)] False pos show ?thesis by auto
  qed
qed

section \<open>Feeding the per-directory digests\<close>

lemma keys_md5_update: "fst ` set (md5_update k b d) = insert k (fst ` set d)"
  by (induction d) auto

lemma distinct_md5_update: "distinct (map fst d) \<Longrightarrow> distinct (map fst (md5_update k b d))"
proof (induction d)
  case Nil
  then show ?case by simp
next
  case (Cons p d)
  then show ?case using keys_md5_update [of k b d] by (auto simp: image_iff)
qed

lemma map_of_md5_update:
  "map_of (md5_update k b d) X = (if X = k then Some (fed_so_far d k @ b) else map_of d X)"
  by (induction d) (auto simp: fed_so_far_def)

lemma fed_so_far_md5_update:
  "fed_so_far (md5_update k b d) X = (if X = k then fed_so_far d X @ b else fed_so_far d X)"
  by (simp add: fed_so_far_def map_of_md5_update)

lemma foldl_md5_update:
  "distinct ps \<Longrightarrow> distinct (map fst d) \<Longrightarrow>
   distinct (map fst (foldl (\<lambda>d p. md5_update p h d) d ps)) \<and>
   fst ` set (foldl (\<lambda>d p. md5_update p h d) d ps) = fst ` set d \<union> set ps \<and>
   (\<forall>X. fed_so_far (foldl (\<lambda>d p. md5_update p h d) d ps) X =
        fed_so_far d X @ (if X \<in> set ps then h else []))"
proof (induction ps arbitrary: d)
  case Nil
  then show ?case by simp
next
  case (Cons p ps)
  from Cons.prems have dps: "distinct ps" and p: "p \<notin> set ps" by simp_all
  have dd: "distinct (map fst (md5_update p h d))"
    using Cons.prems(2) by (rule distinct_md5_update)
  from Cons.IH [OF dps dd] p show ?case
    by (auto simp: keys_md5_update fed_so_far_md5_update)
qed

lemma encode_ascii_Inr: "encode_ascii h = Inr b \<Longrightarrow> b = h"
  by (simp add: encode_ascii_def split: if_splits)

lemma feed_parts_Inr:
  "feed_parts d ps h = Inr d' \<Longrightarrow> d' = foldl (\<lambda>d p. md5_update p h d) d ps"
proof (induction ps arbitrary: d)
  case Nil
  then show ?case by simp
next
  case (Cons p ps)
  then show ?case by (auto split: sum.splits dest: encode_ascii_Inr)
qed

lemma parents_shorter: "X \<in> set (parents p) \<Longrightarrow> length X < length p"
proof (induction p rule: parents.induct)
  case (1 p)
  show ?case
  proof (cases "dirname p = [] \<or> length p \<le> length (dirname p)")
    case True
    with "1.prems" show ?thesis by (simp add: parents.simps [of p])
  next
    case False
    with "1.prems" have "X = dirname p \<or> X \<in> set (parents (dirname p))"
      by (simp add: parents.simps [of p])
    with False "1.IH" show ?thesis by fastforce
  qed
qed

lemma distinct_parents: "distinct (parents p)"
proof (induction p rule: parents.induct)
  case (1 p)
  show ?case
  proof (cases "dirname p = [] \<or> length p \<le> length (dirname p)")
    case True
    then show ?thesis by (simp add: parents.simps [of p])
  next
    case False
    with "1.IH" parents_shorter [of "dirname p" "dirname p"] show ?thesis
      by (auto simp: parents.simps [of p])
  qed
qed

lemma parents_closed:
  "\<not> isabs p \<Longrightarrow> X \<in> set (parents p) \<Longrightarrow> dirname X \<noteq> [] \<Longrightarrow>
   dirname X \<in> set (parents p)"
proof (induction p rule: parents.induct)
  case (1 p)
  let ?h = "dirname p"
  show ?case
  proof (cases "?h = [] \<or> length p \<le> length ?h")
    case True
    with "1.prems" show ?thesis by (simp add: parents.simps [of p])
  next
    case False
    then have ps: "parents p = ?h # parents ?h" by (simp add: parents.simps [of p])
    from path_split_rel [OF "1.prems"(1)] False have rel_h: "\<not> isabs ?h"
      by (auto simp: dirname_path_split)
    from "1.prems"(2) ps have "X = ?h \<or> X \<in> set (parents ?h)" by simp
    then show ?thesis
    proof
      assume X: "X = ?h"
      with "1.prems"(3) path_split_rel [OF rel_h]
      have "dirname ?h \<noteq> [] \<and> length (dirname ?h) < length ?h"
        by (auto simp: dirname_path_split)
      then have "parents ?h = dirname ?h # parents (dirname ?h)"
        by (simp add: parents.simps [of ?h])
      with ps X show ?thesis by simp
    next
      assume "X \<in> set (parents ?h)"
      with "1.IH" False rel_h "1.prems"(3) have "dirname X \<in> set (parents ?h)" by blast
      with ps show ?thesis by simp
    qed
  qed
qed

lemma fed_bytes_Cons:
  "fed_bytes (e # es) X = (if under X e then md5Hash e else []) @ fed_bytes es X"
  by (simp add: fed_bytes_def)

lemma feed_entry_Inr:
  assumes "feed_entry d e = Some (Inr d1)" and "distinct (map fst d)"
  shows "distinct (map fst d1) \<and>
         fst ` set d1 = fst ` set d \<union> {X. under X e} \<and>
         (\<forall>X. fed_so_far d1 X = fed_so_far d X @ (if under X e then md5Hash e else [])) \<and>
         (lower (basename (filePath e)) \<noteq> ''thumbs.db'' \<longrightarrow> \<not> isabs (filePath e))"
proof (cases "lower (basename (filePath e)) \<noteq> ''thumbs.db''")
  case False
  with assms show ?thesis by (auto simp: feed_entry_def under_def)
next
  case True
  have rel: "\<not> isabs (filePath e)"
  proof
    assume "isabs (filePath e)"
    then have "path_split_all (filePath e) = None" by (rule path_split_all_abs)
    with True assms(1) show False by (simp add: feed_entry_def)
  qed
  then have "path_split_all (filePath e) = Some (parents (filePath e))"
    by (rule path_split_all_rel)
  with True assms(1) have "feed_parts d (parents (filePath e)) (md5Hash e) = Inr d1"
    by (simp add: feed_entry_def)
  then have d1: "d1 = foldl (\<lambda>d p. md5_update p (md5Hash e) d) d (parents (filePath e))"
    by (rule feed_parts_Inr)
  from foldl_md5_update [where ps = "parents (filePath e)" and h = "md5Hash e",
      OF distinct_parents assms(2)] True rel
  show ?thesis unfolding d1 by (auto simp: under_def)
qed

lemma feed_all_Inr:
  "feed_all d es = Some (Inr d') \<Longrightarrow> distinct (map fst d) \<Longrightarrow>
   distinct (map fst d') \<and>
   fst ` set d' = fst ` set d \<union> {X. \<exists>e\<in>set es. under X e} \<and>
   (\<forall>X. fed_so_far d' X = fed_so_far d X @ fed_bytes es X) \<and>
   (\<forall>e\<in>set es. lower (basename (filePath e)) \<noteq> ''thumbs.db'' \<longrightarrow> \<not> isabs (filePath e))"
proof (induction es arbitrary: d)
  case Nil
  then show ?case by (simp add: fed_bytes_def)
next
  case (Cons e es)
  from Cons.prems(1) obtain d1 where d1: "feed_entry d e = Some (Inr d1)"
    and rest: "feed_all d1 es = Some (Inr d')"
    by (auto split: option.splits sum.splits)
  note step = feed_entry_Inr [OF d1 Cons.prems(2)]
  from step have dd1: "distinct (map fst d1)" by simp
  note ih = Cons.IH [OF rest dd1]
  have c1: "distinct (map fst d')" using ih by simp
  have c2: "fst ` set d' = fst ` set d \<union> {X. \<exists>e\<in>set (e # es). under X e}"
    using ih step by auto
  have c3: "\<forall>X. fed_so_far d' X = fed_so_far d X @ fed_bytes (e # es) X"
    using ih step by (simp add: fed_bytes_Cons)
  have c4: "\<forall>e\<in>set (e # es). lower (basename (filePath e)) \<noteq> ''thumbs.db'' \<longrightarrow>
      \<not> isabs (filePath e)"
    using ih step by simp
  from c1 c2 c3 c4 show ?case by blast
qed

lemma under_closed:
  "\<forall>e\<in>set es. lower (basename (filePath e)) \<noteq> ''thumbs.db'' \<longrightarrow> \<not> isabs (filePath e) \<Longrightarrow>
   e \<in> set es \<Longrightarrow> under X e \<Longrightarrow> dirname X \<noteq> [] \<Longrightarrow> under (dirname X) e"
  using parents_closed [of "filePath e" X] by (auto simp: under_def)

section \<open>The directory report\<close>

lemma find_dir_dups_closed_form:
  "find_dir_dups d0 =
     (let S = filter (\<lambda>(path, hash). \<not> has_parent_with_same_hash path hash d0) d0
      in filter (\<lambda>(k, paths). 1 < length paths)
           (map (\<lambda>k. (k, map fst (filter (\<lambda>x. snd x = k) S)))
              (remdups_adj (map snd (sort_key snd S)))))"
proof -
  let ?S = "filter (\<lambda>(path, hash). \<not> has_parent_with_same_hash path hash d0) d0"
  let ?keys = "remdups_adj (map snd (sort_key snd ?S))"
  let ?groups = "map (\<lambda>k. (k, map fst (filter (\<lambda>x. snd x = k) ?S))) ?keys"
  let ?kept = "filter (\<lambda>(k, paths). 1 < length paths) ?groups"
  have g: "map (\<lambda>(hash, paths). (hash, map fst paths)) (groupby snd (sort_key snd ?S)) = ?groups"
    by (simp add: groupby_sort_key)
  have "distinct (map fst ?groups)"
    using distinct_keys_sort_key [of snd ?S] by (simp add: comp_def)
  then have "distinct (map fst ?kept)" by (rule distinct_map_filter)
  then have "dict_of ?kept = ?kept" by (rule dict_of_distinct)
  with g show ?thesis by (simp add: find_dir_dups_def Let_def)
qed

lemma set_concat_kept_groups:
  "set (concat (map snd (filter (\<lambda>(k, paths). 1 < length paths) (map (\<lambda>k. (k, g k)) keys)))) =
     {X. \<exists>k\<in>set keys. 1 < length (g k) \<and> X \<in> set (g k)}"
  by (induction keys) auto

lemma reported_find_dir_dups:
  "reported (find_dir_dups d0) =
     {X. \<exists>k. (X, k) \<in> set (filter (\<lambda>(path, hash). \<not> has_parent_with_same_hash path hash d0) d0) \<and>
          1 < length (filter (\<lambda>x. snd x = k)
                (filter (\<lambda>(path, hash). \<not> has_parent_with_same_hash path hash d0) d0))}"
proof -
  define S where "S = filter (\<lambda>(path, hash). \<not> has_parent_with_same_hash path hash d0) d0"
  define keys where "keys = remdups_adj (map snd (sort_key snd S))"
  define grp where "grp = (\<lambda>k. filter (\<lambda>x. snd x = k) S)"
  have cf: "find_dir_dups d0 =
      filter (\<lambda>(k, paths). 1 < length paths) (map (\<lambda>k. (k, map fst (grp k))) keys)"
    using find_dir_dups_closed_form [of d0] by (simp add: Let_def S_def keys_def grp_def)
  have keys: "set keys = snd ` set S" by (simp add: keys_def)
  have "reported (find_dir_dups d0) =
      {X. \<exists>k\<in>snd ` set S. 1 < length (grp k) \<and> X \<in> fst ` set (grp k)}"
    unfolding cf reported_def set_concat_kept_groups keys by simp
  also have "\<dots> = {X. \<exists>k. (X, k) \<in> set S \<and> 1 < length (grp k)}"
  proof (rule Collect_cong, rule iffI)
    fix X
    assume "\<exists>k\<in>snd ` set S. 1 < length (grp k) \<and> X \<in> fst ` set (grp k)"
    then obtain k where k: "1 < length (grp k)" and X: "X \<in> fst ` set (grp k)" by blast
    from X obtain x where "x \<in> set S" "snd x = k" "fst x = X" by (auto simp: grp_def)
    then have "(X, k) \<in> set S" by (metis prod.collapse)
    with k show "\<exists>k. (X, k) \<in> set S \<and> 1 < length (grp k)" by blast
  next
    fix X
    assume "\<exists>k. (X, k) \<in> set S \<and> 1 < length (grp k)"
    then obtain k where m: "(X, k) \<in> set S" and k: "1 < length (grp k)" by blast
    from m have "k \<in> snd ` set S" by force
    moreover from m have "X \<in> fst ` set (grp k)" by (force simp: grp_def)
    ultimately show "\<exists>k\<in>snd ` set S. 1 < length (grp k) \<and> X \<in> fst ` set (grp k)"
      using k by blast
  qed
  finally show ?thesis by (simp add: S_def grp_def)
qed

lemma is_dir_iff: "is_dir idx X = (\<exists>e\<in>set (entries idx). under X e)"
  by (simp add: is_dir_def list_ex_iff)

lemma eval_dir_dups_facts:
  assumes "eval_dir_dups H idx = Some (Inr report)"
  shows "\<exists>d0. report = find_dir_dups d0 \<and> distinct (map fst d0) \<and>
           (\<forall>X k. (X, k) \<in> set d0 \<longleftrightarrow> is_dir idx X \<and> k = composite_hash H idx X) \<and>
           (\<forall>e\<in>set (entries idx). lower (basename (filePath e)) \<noteq> ''thumbs.db'' \<longrightarrow>
               \<not> isabs (filePath e))"
proof -
  from assms obtain d where d: "feed_all [] (entries idx) = Some (Inr d)"
    and r: "report = find_dir_dups (map (\<lambda>(path, fed). (path, H fed)) d)"
    by (auto simp: eval_dir_dups_def split: option.splits sum.splits)
  let ?d0 = "map (\<lambda>(path, fed). (path, H fed)) d"
  from feed_all_Inr [OF d] have dist: "distinct (map fst d)"
    and keys: "fst ` set d = {X. \<exists>e\<in>set (entries idx). under X e}"
    and fed: "\<And>X. fed_so_far d X = fed_bytes (entries idx) X"
    and rel: "\<forall>e\<in>set (entries idx). lower (basename (filePath e)) \<noteq> ''thumbs.db'' \<longrightarrow>
               \<not> isabs (filePath e)"
    by (simp_all add: fed_so_far_def)
  have mem: "(X, b) \<in> set d \<longleftrightarrow> is_dir idx X \<and> b = fed_bytes (entries idx) X" for X b
  proof
    assume m: "(X, b) \<in> set d"
    with dist have "map_of d X = Some b" by simp
    then have "fed_so_far d X = b" by (simp add: fed_so_far_def)
    moreover from m have "X \<in> fst ` set d" by force
    ultimately show "is_dir idx X \<and> b = fed_bytes (entries idx) X"
      using keys fed by (simp add: is_dir_iff)
  next
    assume a: "is_dir idx X \<and> b = fed_bytes (entries idx) X"
    then have "X \<in> fst ` set d" using keys by (simp add: is_dir_iff)
    then obtain b' where m: "(X, b') \<in> set d" by auto
    with dist have "map_of d X = Some b'" by simp
    then have "fed_so_far d X = b'" by (simp add: fed_so_far_def)
    with fed a m show "(X, b) \<in> set d" by simp
  qed
  have eq: "map fst ?d0 = map fst d" by (induction d) auto
  have c2: "distinct (map fst ?d0)" unfolding eq by (rule dist)
  have c3: "\<forall>X k. (X, k) \<in> set ?d0 \<longleftrightarrow> is_dir idx X \<and> k = composite_hash H idx X"
  proof (intro allI iffI)
    fix X k
    assume "(X, k) \<in> set ?d0"
    then obtain b where "(X, b) \<in> set d" "k = H b" by auto
    with mem show "is_dir idx X \<and> k = composite_hash H idx X"
      by (simp add: composite_hash_def)
  next
    fix X k
    assume "is_dir idx X \<and> k = composite_hash H idx X"
    with mem have "(X, fed_bytes (entries idx) X) \<in> set d"
      and "k = H (fed_bytes (entries idx) X)"
      by (simp_all add: composite_hash_def)
    then show "(X, k) \<in> set ?d0" by force
  qed
  from r c2 c3 rel show ?thesis by blast
qed


lemma reported_eval_dir_dups:
  assumes "eval_dir_dups H idx = Some (Inr report)"
  shows "reported report =
     {X. is_dir idx X \<and> \<not> pruned H idx X \<and>
         (\<exists>Y. Y \<noteq> X \<and> is_dir idx Y \<and> \<not> pruned H idx Y \<and>
              composite_hash H idx Y = composite_hash H idx X)}"
proof -
  from eval_dir_dups_facts [OF assms] obtain d0 where r: "report = find_dir_dups d0"
    and dist: "distinct (map fst d0)"
    and mem: "\<And>X k. (X, k) \<in> set d0 \<longleftrightarrow> is_dir idx X \<and> k = composite_hash H idx X"
    and rel: "\<forall>e\<in>set (entries idx). lower (basename (filePath e)) \<noteq> ''thumbs.db'' \<longrightarrow>
               \<not> isabs (filePath e)"
    by blast
  define S where "S = filter (\<lambda>(path, hash). \<not> has_parent_with_same_hash path hash d0) d0"
  have lookup: "map_of d0 X = Some k \<longleftrightarrow> is_dir idx X \<and> k = composite_hash H idx X" for X k
    using dist mem [of X k] by simp
  have closed: "is_dir idx (dirname X)" if "is_dir idx X" "dirname X \<noteq> []" for X
    using that under_closed [OF rel] by (auto simp: is_dir_iff)
  have hp: "has_parent_with_same_hash X (composite_hash H idx X) d0 = pruned H idx X"
    if "is_dir idx X" for X
    using closed [OF that] lookup [of "dirname X" "composite_hash H idx X"]
    by (auto simp: has_parent_with_same_hash_def pruned_def Let_def)
  have memS: "(X, k) \<in> set S \<longleftrightarrow>
      is_dir idx X \<and> k = composite_hash H idx X \<and> \<not> pruned H idx X" for X k
    unfolding S_def using mem [of X k] hp [of X] by auto
  from dist have "distinct d0" by (rule distinct_map [THEN iffD1, THEN conjunct1])
  then have dS: "distinct S" by (simp add: S_def)
  have "reported report =
      {X. \<exists>k. (X, k) \<in> set S \<and> 1 < length (filter (\<lambda>x. snd x = k) S)}"
    unfolding r S_def by (rule reported_find_dir_dups)
  also have "\<dots> = {X. is_dir idx X \<and> \<not> pruned H idx X \<and>
         (\<exists>Y. Y \<noteq> X \<and> is_dir idx Y \<and> \<not> pruned H idx Y \<and>
              composite_hash H idx Y = composite_hash H idx X)}"
  proof (rule Collect_cong)
    fix X
    have "(1 < length (filter (\<lambda>x. snd x = k) S)) =
          (\<exists>Y. Y \<noteq> X \<and> (Y, k) \<in> set S)" if "(X, k) \<in> set S" for k
    proof -
      have "(1 < length (filter (\<lambda>x. snd x = k) S)) =
            (\<exists>y\<in>set S. y \<noteq> (X, k) \<and> snd y = k)"
        using dS that by (rule filter_length_gt1) simp
      also have "\<dots> = (\<exists>Y. Y \<noteq> X \<and> (Y, k) \<in> set S)" by force
      finally show ?thesis .
    qed
    note gt1 = this
    show "(\<exists>k. (X, k) \<in> set S \<and> 1 < length (filter (\<lambda>x. snd x = k) S)) =
        (is_dir idx X \<and> \<not> pruned H idx X \<and>
         (\<exists>Y. Y \<noteq> X \<and> is_dir idx Y \<and> \<not> pruned H idx Y \<and>
              composite_hash H idx Y = composite_hash H idx X))"
    proof
      assume "\<exists>k. (X, k) \<in> set S \<and> 1 < length (filter (\<lambda>x. snd x = k) S)"
      then obtain k where m: "(X, k) \<in> set S"
        and l: "1 < length (filter (\<lambda>x. snd x = k) S)" by blast
      from gt1 [OF m] l obtain Y where Y: "Y \<noteq> X" "(Y, k) \<in> set S" by blast
      from m memS have "is_dir idx X" "k = composite_hash H idx X" "\<not> pruned H idx X"
        by simp_all
      moreover from Y(2) memS
      have "is_dir idx Y" "k = composite_hash H idx Y" "\<not> pruned H idx Y"
        by simp_all
      ultimately show "is_dir idx X \<and> \<not> pruned H idx X \<and>
         (\<exists>Y. Y \<noteq> X \<and> is_dir idx Y \<and> \<not> pruned H idx Y \<and>
              composite_hash H idx Y = composite_hash H idx X)"
        using Y(1) by metis
    next
      assume a: "is_dir idx X \<and> \<not> pruned H idx X \<and>
         (\<exists>Y. Y \<noteq> X \<and> is_dir idx Y \<and> \<not> pruned H idx Y \<and>
              composite_hash H idx Y = composite_hash H idx X)"
      then obtain Y where Y: "Y \<noteq> X" "is_dir idx Y" "\<not> pruned H idx Y"
        "composite_hash H idx Y = composite_hash H idx X" by blast
      from a memS have m: "(X, composite_hash H idx X) \<in> set S" by simp
      from Y memS have "(Y, composite_hash H idx X) \<in> set S" by simp
      with gt1 [OF m] Y(1)
      have "1 < length (filter (\<lambda>x. snd x = composite_hash H idx X) S)" by blast
      with m show "\<exists>k. (X, k) \<in> set S \<and> 1 < length (filter (\<lambda>x. snd x = k) S)"
        by blast
    qed
  qed
  finally show ?thesis .
qed

section \<open>Directory pruning\<close>

lemma eval_dir_dups_idx4: "eval_dir_dups (\<lambda>b. b) idx4 = Some (Inr [])"
  by (simp add: eval_dir_dups_def entries_def idx4_def table_def Entry_of_def feed_entry_def
     path_split_all_def path_split_all_loop.simps path_split_def rfind_sep1_def rstrip_sep_def
     basename_def lower_def ascii_lower_def encode_ascii_def find_dir_dups_def
     has_parent_with_same_hash_def dirname_def dict_of_def)

lemma eval_dir_dups_idx5:
  "eval_dir_dups (\<lambda>b. b) idx5 = Some (Inr [(''aa'', [''g'', ''q''])])"
  by (simp add: eval_dir_dups_def entries_def idx5_def table_def Entry_of_def feed_entry_def
     path_split_all_def path_split_all_loop.simps path_split_def rfind_sep1_def rstrip_sep_def
     basename_def lower_def ascii_lower_def encode_ascii_def find_dir_dups_def
     has_parent_with_same_hash_def dirname_def dict_of_def)

text \<open>
  C6, as stated, fails: the report need not contain the parent. In the index whose only
  file is p/c/f.txt, the directory p holds nothing but the directory p/c and both have
  the same composite hash; p/c is pruned, p is then alone with its hash, and a group of
  one is not a duplicate: the report is empty. In the index of g/p/c/f.txt and q/x.txt,
  g/p holds nothing but g/p/c, and g holds nothing but g/p: g/p is pruned in its turn and
  the report lists g and q only.
\<close>

theorem directory_pruning_counterexample:
  "eval_dir_dups (\<lambda>b. b) idx4 = Some (Inr []) \<and>
   dirname ''p/c'' = ''p'' \<and>
   list_all (\<lambda>e. under ''p'' e \<longrightarrow> under ''p/c'' e) (entries idx4) \<and>
   is_dir idx4 ''p/c'' \<and> is_dir idx4 ''p'' \<and>
   composite_hash (\<lambda>b. b) idx4 ''p/c'' = composite_hash (\<lambda>b. b) idx4 ''p'' \<and>
   ''p'' \<notin> reported [] \<and> ''p/c'' \<notin> reported [] \<and>
   eval_dir_dups (\<lambda>b. b) idx5 = Some (Inr [(''aa'', [''g'', ''q''])]) \<and>
   dirname ''g/p/c'' = ''g/p'' \<and>
   list_all (\<lambda>e. under ''g/p'' e \<longrightarrow> under ''g/p/c'' e) (entries idx5) \<and>
   is_dir idx5 ''g/p/c'' \<and> is_dir idx5 ''g/p'' \<and>
   composite_hash (\<lambda>b. b) idx5 ''g/p/c'' = composite_hash (\<lambda>b. b) idx5 ''g/p'' \<and>
   ''g/p'' \<notin> reported [(''aa'', [''g'', ''q''])] \<and>
   ''g/p/c'' \<notin> reported [(''aa'', [''g'', ''q''])]"
proof -
  have d4: "dirname ''p/c'' = ''p''"
    by (simp add: dirname_def rfind_sep1_def rstrip_sep_def)
  have d5: "dirname ''g/p/c'' = ''g/p''"
    by (simp add: dirname_def rfind_sep1_def rstrip_sep_def)
  have p1: "parents ''p/c/f.txt'' = [''p/c'', ''p'']"
    by (simp add: parents.simps dirname_def rfind_sep1_def rstrip_sep_def)
  have p2: "parents ''g/p/c/f.txt'' = [''g/p/c'', ''g/p'', ''g'']"
    by (simp add: parents.simps dirname_def rfind_sep1_def rstrip_sep_def)
  have p3: "parents ''q/x.txt'' = [''q'']"
    by (simp add: parents.simps dirname_def rfind_sep1_def rstrip_sep_def)
  have b1: "lower (basename ''p/c/f.txt'') = ''f.txt''"
    by (simp add: basename_def rfind_sep1_def lower_def ascii_lower_def)
  have b2: "lower (basename ''g/p/c/f.txt'') = ''f.txt''"
    by (simp add: basename_def rfind_sep1_def lower_def ascii_lower_def)
  have b3: "lower (basename ''q/x.txt'') = ''x.txt''"
    by (simp add: basename_def rfind_sep1_def lower_def ascii_lower_def)
  have e4: "entries idx4 = [\<lparr>filePath = ''p/c/f.txt'', fileSize = 1, md5Hash = ''aa''\<rparr>]"
    by (simp add: entries_def idx4_def table_def Entry_of_def)
  have e5: "entries idx5 = [\<lparr>filePath = ''g/p/c/f.txt'', fileSize = 1, md5Hash = ''aa''\<rparr>,
      \<lparr>filePath = ''q/x.txt'', fileSize = 1, md5Hash = ''aa''\<rparr>]"
    by (simp add: entries_def idx5_def table_def Entry_of_def)
  have u4: "list_all (\<lambda>e. under ''p'' e \<longrightarrow> under ''p/c'' e) (entries idx4)"
    by (simp add: e4 under_def p1 b1)
  have u5: "list_all (\<lambda>e. under ''g/p'' e \<longrightarrow> under ''g/p/c'' e) (entries idx5)"
    by (simp add: e5 under_def p2 p3 b2 b3)
  have i4: "is_dir idx4 ''p/c''" "is_dir idx4 ''p''"
    by (simp_all add: is_dir_def e4 under_def p1 b1)
  have i5: "is_dir idx5 ''g/p/c''" "is_dir idx5 ''g/p''"
    by (simp_all add: is_dir_def e5 under_def p2 p3 b2 b3)
  have c4: "composite_hash (\<lambda>b. b) idx4 ''p/c'' = composite_hash (\<lambda>b. b) idx4 ''p''"
    by (simp add: composite_hash_def fed_bytes_def e4 under_def p1 b1)
  have c5: "composite_hash (\<lambda>b. b) idx5 ''g/p/c'' = composite_hash (\<lambda>b. b) idx5 ''g/p''"
    by (simp add: composite_hash_def fed_bytes_def e5 under_def p2 p3 b2 b3)
  have r4: "''p'' \<notin> reported []" "''p/c'' \<notin> reported []"
    by (simp_all add: reported_def)
  have r5: "''g/p'' \<notin> reported [(''aa'', [''g'', ''q''])]"
    "''g/p/c'' \<notin> reported [(''aa'', [''g'', ''q''])]"
    by (simp_all add: reported_def)
  show ?thesis
    by (rule conjI [OF eval_dir_dups_idx4 conjI [OF d4 conjI [OF u4 conjI [OF i4(1) conjI [OF i4(2)
         conjI [OF c4 conjI [OF r4(1) conjI [OF r4(2) conjI [OF eval_dir_dups_idx5 conjI [OF d5
         conjI [OF u5 conjI [OF i5(1) conjI [OF i5(2) conjI [OF c5 conjI [OF r5(1) r5(2)]]]]]]]]]]]]]]])
qed

text \<open>
  C6, amended. Let \<open>eval_dir_dups\<close> return a report, and let P be the parent of the
  directory C such that every entry that counts for P counts for C (P holds nothing but
  C). Then C and P have the same composite hash and C is not in the report, so that of P
  and C at most the parent appears. No directory whose parent has the same composite hash
  is in the report, and P itself is reported exactly when it is a directory of the index,
  is not pruned in its turn, and some other unpruned directory has the same composite
  hash.
\<close>

theorem directory_pruning:
  assumes "eval_dir_dups H idx = Some (Inr report)"
    and "dirname C = P" and "P \<noteq> []"
    and "\<forall>e\<in>set (entries idx). under P e \<longrightarrow> under C e"
  shows "composite_hash H idx C = composite_hash H idx P \<and>
     C \<notin> reported report \<and>
     (\<forall>X\<in>reported report. \<not> pruned H idx X) \<and>
     (P \<in> reported report \<longleftrightarrow>
        is_dir idx P \<and> \<not> pruned H idx P \<and>
        (\<exists>Y. Y \<noteq> P \<and> is_dir idx Y \<and> \<not> pruned H idx Y \<and>
             composite_hash H idx Y = composite_hash H idx P))"
proof -
  note rep = reported_eval_dir_dups [OF assms(1)]
  from eval_dir_dups_facts [OF assms(1)]
  have rel: "\<forall>e\<in>set (entries idx). lower (basename (filePath e)) \<noteq> ''thumbs.db'' \<longrightarrow>
               \<not> isabs (filePath e)"
    by blast
  have "under C e = under P e" if "e \<in> set (entries idx)" for e
    using under_closed [OF rel that, of C] assms(2,3,4) that by blast
  then have "filter (under C) (entries idx) = filter (under P) (entries idx)"
    by (auto intro: filter_cong)
  then have eq: "composite_hash H idx C = composite_hash H idx P"
    by (simp add: composite_hash_def fed_bytes_def)
  with assms(2,3) have "pruned H idx C" by (simp add: pruned_def)
  then have c2: "C \<notin> reported report" unfolding rep by simp
  have c3: "\<forall>X\<in>reported report. \<not> pruned H idx X" unfolding rep by simp
  have c4: "P \<in> reported report \<longleftrightarrow>
        is_dir idx P \<and> \<not> pruned H idx P \<and>
        (\<exists>Y. Y \<noteq> P \<and> is_dir idx Y \<and> \<not> pruned H idx Y \<and>
             composite_hash H idx Y = composite_hash H idx P)"
    unfolding rep by simp
  from eq c2 c3 c4 show ?thesis by blast
qed

lemma eval_dir_dups_idx2:
  "eval_dir_dups (\<lambda>b. b) idx2 = Some (Inr [(''aa'', [''p'', ''q''])])"
  by (simp add: eval_dir_dups_def entries_def idx2_def table_def Entry_of_def feed_entry_def
     path_split_all_def path_split_all_loop.simps path_split_def rfind_sep1_def rstrip_sep_def
     basename_def lower_def ascii_lower_def encode_ascii_def find_dir_dups_def
     has_parent_with_same_hash_def dirname_def dict_of_def)

theorem directory_pruning_witness:
  "eval_dir_dups (\<lambda>b. b) idx2 = Some (Inr [(''aa'', [''p'', ''q''])]) \<and>
   dirname ''p/c'' = ''p'' \<and>
   list_all (\<lambda>e. under ''p'' e \<longrightarrow> under ''p/c'' e) (entries idx2) \<and>
   composite_hash (\<lambda>b. b) idx2 ''p/c'' = composite_hash (\<lambda>b. b) idx2 ''p'' \<and>
   ''p/c'' \<notin> reported [(''aa'', [''p'', ''q''])] \<and>
   ''p'' \<in> reported [(''aa'', [''p'', ''q''])]"
proof -
  have d: "dirname ''p/c'' = ''p''"
    by (simp add: dirname_def rfind_sep1_def rstrip_sep_def)
  have p1: "parents ''p/c/f.txt'' = [''p/c'', ''p'']"
    by (simp add: parents.simps dirname_def rfind_sep1_def rstrip_sep_def)
  have p2: "parents ''q/g.txt'' = [''q'']"
    by (simp add: parents.simps dirname_def rfind_sep1_def rstrip_sep_def)
  have u: "list_all (\<lambda>e. under ''p'' e \<longrightarrow> under ''p/c'' e) (entries idx2)"
    by (simp add: entries_def idx2_def table_def Entry_of_def under_def p1 p2)
  have ne: "''p'' \<noteq> []" by simp
  from u have u': "\<forall>e\<in>set (entries idx2). under ''p'' e \<longrightarrow> under ''p/c'' e"
    by (simp add: list_all_iff)
  from directory_pruning [OF eval_dir_dups_idx2 d ne u'] eval_dir_dups_idx2 d u
  show ?thesis by (simp add: reported_def)
qed

section \<open>Filter semantics\<close>

lemma test_Filter_init:
  "test (Filter_init incs excs) path =
     (\<not> (\<exists>e\<in>set excs. fnmatchcase path e) \<and>
      (incs = [] \<or> (\<exists>i\<in>set incs. fnmatchcase path i)))"
  by (auto simp: test_def Filter_init_def Let_def re_match_def fnmatchcase_def list_ex_iff)

lemma sql_Filter_init:
  "sql_eval (sql (Filter_init incs excs)) fp =
     (\<not> (\<exists>e\<in>set excs. sql_like (whitecard_to_like e) fp) \<and>
      (incs = [] \<or> (\<exists>i\<in>set incs. sql_like (whitecard_to_like i) fp)))"
  by (auto simp: Filter_init_def Let_def list_ex_iff list_all_iff)

lemma replace_char_absent: "c \<notin> set s \<Longrightarrow> replace_char c r s = s"
  by (induction s) (auto simp: replace_char_def)

lemma replace_char_map: "replace_char c [r] s = map (\<lambda>x. if x = c then r else x) s"
  by (induction s) (auto simp: replace_char_def)

lemma whitecard_to_like_plain: "plain p \<Longrightarrow> whitecard_to_like p = map like_char p"
proof -
  assume "plain p"
  then have "CHR ''%'' \<notin> set p" "CHR ''_'' \<notin> set p" by (auto simp: plain_def list_all_iff)
  then show ?thesis
    by (simp add: whitecard_to_like_def replace_char_absent replace_char_map like_char_def comp_def)
qed

lemma translate_no_bracket: "CHR ''['' \<notin> set p \<Longrightarrow> translate p = map glob_tok p"
  by (induction p) (auto simp: glob_tok_def)

lemma ascii_lower_special:
  "(ascii_lower c = CHR ''*'') = (c = CHR ''*'')"
  "(ascii_lower c = CHR ''?'') = (c = CHR ''?'')"
  "(ascii_lower c = CHR ''['') = (c = CHR ''['')"
  by (auto simp: ascii_lower_def)

lemma ascii_lower_wild: "ascii_lower (CHR ''*'') = CHR ''*''" "ascii_lower (CHR ''?'') = CHR ''?''"
  by (simp_all add: ascii_lower_def)

lemma like_char_simps:
  "like_char (CHR ''*'') = CHR ''%''" "like_char (CHR ''?'') = CHR ''_''"
  "c \<noteq> CHR ''*'' \<Longrightarrow> c \<noteq> CHR ''?'' \<Longrightarrow> like_char c = c"
  by (simp_all add: like_char_def)

lemma glob_tok_simps:
  "glob_tok (CHR ''*'') = Star" "glob_tok (CHR ''?'') = AnyChar"
  "c \<noteq> CHR ''*'' \<Longrightarrow> c \<noteq> CHR ''?'' \<Longrightarrow> glob_tok c = Lit c"
  by (simp_all add: glob_tok_def)

lemma like_glob_chars:
  "list_all (\<lambda>c. c \<noteq> CHR ''%'' \<and> c \<noteq> CHR ''_'') p \<Longrightarrow>
   sql_like (map like_char p) s = gmatch (map glob_tok (map ascii_lower p)) (map ascii_lower s)"
proof (induction p arbitrary: s)
  case Nil
  then show ?case by simp
next
  case (Cons c p)
  then have c: "c \<noteq> CHR ''%''" "c \<noteq> CHR ''_''"
    and ih: "\<And>s. sql_like (map like_char p) s =
                gmatch (map glob_tok (map ascii_lower p)) (map ascii_lower s)"
    by simp_all
  consider (star) "c = CHR ''*''" | (any) "c = CHR ''?''" | (lit) "c \<noteq> CHR ''*''" "c \<noteq> CHR ''?''"
    by blast
  then show ?case
  proof cases
    case star
    have "sql_like (CHR ''%'' # map like_char p) s =
          gmatch (Star # map glob_tok (map ascii_lower p)) (map ascii_lower s)"
      by (induction s) (simp_all add: ih)
    with star show ?thesis
      by (simp add: like_char_simps glob_tok_simps ascii_lower_wild)
  next
    case any
    then show ?thesis
      by (cases s) (simp_all add: like_char_simps glob_tok_simps ascii_lower_wild ih)
  next
    case lit
    then have "glob_tok (ascii_lower c) = Lit (ascii_lower c)"
      by (simp add: glob_tok_simps ascii_lower_special)
    with lit c show ?thesis
      by (cases s) (simp_all add: like_char_simps ih)
  qed
qed

lemma lower_no_bracket: "CHR ''['' \<notin> set p \<Longrightarrow> CHR ''['' \<notin> set (lower p)"
proof
  assume "CHR ''['' \<notin> set p" and "CHR ''['' \<in> set (lower p)"
  then obtain x where "x \<in> set p" "ascii_lower x = CHR ''[''" by (auto simp: lower_def)
  with \<open>CHR ''['' \<notin> set p\<close> show False by (simp add: ascii_lower_special)
qed

lemma like_fnmatchcase_lower:
  "plain p \<Longrightarrow> sql_like (whitecard_to_like p) s = fnmatchcase (lower s) (lower p)"
proof -
  assume pl: "plain p"
  then have nb: "CHR ''['' \<notin> set p"
    and np: "list_all (\<lambda>c. c \<noteq> CHR ''%'' \<and> c \<noteq> CHR ''_'') p"
    by (auto simp: plain_def list_all_iff)
  from nb have "translate (lower p) = map glob_tok (lower p)"
    by (intro translate_no_bracket lower_no_bracket)
  with like_glob_chars [OF np, of s] whitecard_to_like_plain [OF pl]
  show ?thesis by (simp add: fnmatchcase_def lower_def)
qed

lemma unique_hashes_quote_free:
  "quote_free (sql f) \<Longrightarrow>
   unique_hashes sqlite idx f =
     Inr (set (map md5Hash (filter (\<lambda>e. sql_eval (sql f) (filePath e)) (entries idx))))"
  by (simp add: unique_hashes_def entries_def filter_map comp_def Entry_of_def split_beta)

lemma like_char_quote: "(like_char c = CHR 0x27) = (c = CHR 0x27)"
  by (simp add: like_char_def)

lemma whitecard_to_like_quote_free: "plain p \<Longrightarrow> CHR 0x27 \<notin> set (whitecard_to_like p)"
proof -
  assume pl: "plain p"
  then have np: "CHR 0x27 \<notin> set p" by (auto simp: plain_def list_all_iff)
  have "CHR 0x27 \<notin> set (map like_char p)"
  proof
    assume "CHR 0x27 \<in> set (map like_char p)"
    then obtain x where "x \<in> set p" "like_char x = CHR 0x27" by auto
    with np show False by (simp add: like_char_quote)
  qed
  with whitecard_to_like_plain [OF pl] show ?thesis by simp
qed

lemma quote_free_Filter_init:
  "list_all plain incs \<Longrightarrow> list_all plain excs \<Longrightarrow> quote_free (sql (Filter_init incs excs))"
  by (auto simp: Filter_init_def Let_def list_all_iff whitecard_to_like_quote_free)


section \<open>Filter.test\<close>

text \<open>
  C4. For all include and exclude pattern lists and every path: if the path matches some
  exclude pattern, \<open>test\<close> is false (whether or not an include pattern matches too);
  otherwise \<open>test\<close> is true exactly when the include list is empty or the path matches
  some include pattern.
\<close>

theorem filter_test_semantics:
  "((\<exists>e\<in>set excs. fnmatchcase path e) \<longrightarrow> \<not> test (Filter_init incs excs) path) \<and>
   (\<not> (\<exists>e\<in>set excs. fnmatchcase path e) \<longrightarrow>
      test (Filter_init incs excs) path = (incs = [] \<or> (\<exists>i\<in>set incs. fnmatchcase path i)))"
  by (simp add: test_Filter_init)

theorem filter_test_semantics_witness:
  "fnmatchcase ''tmp/a.txt'' ''tmp/*'' \<and> fnmatchcase ''tmp/a.txt'' ''*.txt'' \<and>
   \<not> test (Filter_init [''*.txt''] [''tmp/*'']) ''tmp/a.txt'' \<and>
   \<not> fnmatchcase ''doc/a.txt'' ''tmp/*'' \<and>
   test (Filter_init [''*.txt''] [''tmp/*'']) ''doc/a.txt'' \<and>
   test (Filter_init [] [''tmp/*'']) ''doc/a.bin'' \<and>
   \<not> test (Filter_init [''*.txt''] [''tmp/*'']) ''doc/a.bin''"
  using filter_test_semantics [of "[''tmp/*'']" "''tmp/a.txt''" "[''*.txt'']"]
    filter_test_semantics [of "[''tmp/*'']" "''doc/a.txt''" "[''*.txt'']"]
    filter_test_semantics [of "[''tmp/*'']" "''doc/a.bin''" "[]"]
    filter_test_semantics [of "[''tmp/*'']" "''doc/a.bin''" "[''*.txt'']"]
  by (simp add: fnmatchcase_def)

section \<open>Index.unique_hashes\<close>

text \<open>
  C2, as stated, fails: \<open>unique_hashes\<close> selects with the filter's WHERE clause, whose
  LIKE comparisons ignore ASCII case, while \<open>test\<close> matches case-sensitively. With the
  include pattern \<open>*.TXT\<close> the row of a.txt is selected although \<open>test\<close> rejects
  a.txt.
\<close>

theorem unique_hashes_not_test_counterexample:
  "unique_hashes sqlite_refuses idx3 (Filter_init [''*.TXT''] []) \<noteq>
     Inr (set (map md5Hash (filter (\<lambda>e. test (Filter_init [''*.TXT''] []) (filePath e))
       (entries idx3))))"
proof -
  have "unique_hashes sqlite_refuses idx3 (Filter_init [''*.TXT''] []) = Inr {''h1'', ''h2''}"
    by (simp add: unique_hashes_def idx3_def table_def Filter_init_def whitecard_to_like_def
        replace_char_def ascii_lower_def)
  moreover have "set (map md5Hash (filter
      (\<lambda>e. test (Filter_init [''*.TXT''] []) (filePath e)) (entries idx3))) = {''h2''}"
    by (simp add: entries_def idx3_def table_def Entry_of_def test_Filter_init fnmatchcase_def)
  ultimately show ?thesis by simp
qed

text \<open>
  C2, amended. For plain include and exclude patterns, \<open>unique_hashes\<close> returns, without
  raising, exactly the hashes of the stored entries whose file path satisfies the
  include/exclude semantics of \<open>test\<close> with ASCII case ignored, that is, after
  lower-casing the patterns and the path.
\<close>

theorem unique_hashes_case_insensitive:
  assumes "list_all plain incs" and "list_all plain excs"
  shows "unique_hashes sqlite idx (Filter_init incs excs) =
     Inr (set (map md5Hash (filter
       (\<lambda>e. test (Filter_init (map lower incs) (map lower excs)) (lower (filePath e)))
       (entries idx))))"
proof -
  have "sql_eval (sql (Filter_init incs excs)) fp =
        test (Filter_init (map lower incs) (map lower excs)) (lower fp)" for fp
    using assms
    by (simp add: sql_Filter_init test_Filter_init list_all_iff like_fnmatchcase_lower)
  with quote_free_Filter_init [OF assms] show ?thesis
    by (simp add: unique_hashes_quote_free)
qed

theorem unique_hashes_case_insensitive_witness:
  "list_all plain [''*.TXT''] \<and> list_all plain [''tmp/*''] \<and>
   unique_hashes sqlite_refuses idx3 (Filter_init [''*.TXT''] [''tmp/*'']) = Inr {''h1''} \<and>
   test (Filter_init (map lower [''*.TXT'']) (map lower [''tmp/*''])) (lower ''a.txt'') \<and>
   \<not> test (Filter_init (map lower [''*.TXT'']) (map lower [''tmp/*''])) (lower ''tmp/b.TXT'')"
proof -
  have p: "list_all plain [''*.TXT'']" "list_all plain [''tmp/*'']"
    by (simp_all add: plain_def)
  have t1: "test (Filter_init (map lower [''*.TXT'']) (map lower [''tmp/*''])) (lower ''a.txt'')"
    by (simp add: test_Filter_init fnmatchcase_def lower_def ascii_lower_def)
  have t2: "\<not> test (Filter_init (map lower [''*.TXT'']) (map lower [''tmp/*'']))
      (lower ''tmp/b.TXT'')"
    by (simp add: test_Filter_init fnmatchcase_def lower_def ascii_lower_def)
  have e: "entries idx3 = [\<lparr>filePath = ''a.txt'', fileSize = 1, md5Hash = ''h1''\<rparr>,
      \<lparr>filePath = ''tmp/b.TXT'', fileSize = 2, md5Hash = ''h2''\<rparr>]"
    by (simp add: entries_def idx3_def table_def Entry_of_def)
  from unique_hashes_case_insensitive [OF p, of sqlite_refuses idx3] t1 t2
  have "unique_hashes sqlite_refuses idx3 (Filter_init [''*.TXT''] [''tmp/*'']) = Inr {''h1''}"
    unfolding e by simp
  with p t1 t2 show ?thesis by simp
qed

section \<open>eval_missing\<close>

lemma dom_if_mem: "dom (\<lambda>h. if h \<in> A then Some (g h) else None) = A"
  by (auto simp: dom_def)

lemma eval_missing_Inr:
  "unique_hashes sqlite left f = Inr L \<Longrightarrow> unique_hashes sqlite right f = Inr R \<Longrightarrow>
   eval_missing sqlite left right f =
     (if 5000 < card (R - L) then Inl (RuntimeError ''Abort: too many hashes'')
      else Inr (\<lambda>hash. if hash \<in> R - L
             then Some (find_filepaths_for_hash right hash) else None))"
  by (simp add: eval_missing_def Let_def)

lemma eval_missing_left_fails:
  "unique_hashes sqlite left f = Inl err \<Longrightarrow> eval_missing sqlite left right f = Inl err"
  by (simp add: eval_missing_def)

lemma eval_missing_right_fails:
  "unique_hashes sqlite left f = Inr L \<Longrightarrow> unique_hashes sqlite right f = Inl err \<Longrightarrow>
   eval_missing sqlite left right f = Inl err"
  by (simp add: eval_missing_def)

lemma unique_hashes_all:
  "unique_hashes sqlite \<lparr>conn = \<lparr>committed = map g ns, pending = None\<rparr>, root = r\<rparr>
     (Filter_init [] []) = Inr ((\<lambda>n. snd (snd (g n))) ` set ns)"
  by (simp add: unique_hashes_def table_def Filter_init_def image_image)

lemma unique_hashes_idx_big:
  "unique_hashes sqlite idx_big (Filter_init [] []) =
     Inr ((\<lambda>n. replicate n (CHR ''a'')) ` {0..<5001})"
  unfolding idx_big_def unique_hashes_all by (simp only: snd_conv atLeastLessThan_upt)

lemma card_hashes_idx_big: "card ((\<lambda>n. replicate n (CHR ''a'')) ` {0..<5001}) = 5001"
proof -
  have "inj_on (\<lambda>n. replicate n (CHR ''a'')) {0..<5001}"
    by (rule inj_onI) (metis length_replicate)
  then show ?thesis by (simp only: card_image card_atLeastLessThan)
qed

lemma unique_hashes_idx_empty: "unique_hashes sqlite idx_empty (Filter_init [] []) = Inr {}"
  by (simp add: unique_hashes_def idx_empty_def table_def Filter_init_def)

text \<open>
  C3. For all indexes left and right and every filter: when the two queries return the
  hash sets L and R and the missing set \<open>R - L\<close> has more than 5000 elements,
  \<open>eval_missing\<close> raises (a RuntimeError, "Abort: too many hashes") and returns no
  mapping; when \<open>R - L\<close> has at most 5000 elements, \<open>eval_missing\<close> returns the mapping
  whose keys are exactly the missing hashes, each with its file paths in the right index.
  When a query raises, as SQLite does on the statement built from a pattern with a single
  quote, \<open>eval_missing\<close> raises the same exception, whatever the size of the missing
  set. With a filter whose clause has no single quote both queries return.
\<close>

theorem eval_missing_threshold:
  "(unique_hashes sqlite left f = Inr L \<and> unique_hashes sqlite right f = Inr R \<and>
      5000 < card (R - L) \<longrightarrow>
      eval_missing sqlite left right f = Inl (RuntimeError ''Abort: too many hashes'')) \<and>
   (unique_hashes sqlite left f = Inr L \<and> unique_hashes sqlite right f = Inr R \<and>
      card (R - L) \<le> 5000 \<longrightarrow>
      (\<exists>m. eval_missing sqlite left right f = Inr m \<and> dom m = R - L \<and>
           (\<forall>h\<in>R - L. m h = Some (find_filepaths_for_hash right h)))) \<and>
   (unique_hashes sqlite left f = Inl err \<longrightarrow> eval_missing sqlite left right f = Inl err) \<and>
   (unique_hashes sqlite left f = Inr L \<and> unique_hashes sqlite right f = Inl err \<longrightarrow>
      eval_missing sqlite left right f = Inl err) \<and>
   (quote_free (sql f) \<longrightarrow>
      (\<exists>L R. unique_hashes sqlite left f = Inr L \<and> unique_hashes sqlite right f = Inr R))"
proof -
  have c1: "unique_hashes sqlite left f = Inr L \<and> unique_hashes sqlite right f = Inr R \<and>
      5000 < card (R - L) \<longrightarrow>
      eval_missing sqlite left right f = Inl (RuntimeError ''Abort: too many hashes'')"
    by (simp add: eval_missing_Inr)
  have c2: "unique_hashes sqlite left f = Inr L \<and> unique_hashes sqlite right f = Inr R \<and>
      card (R - L) \<le> 5000 \<longrightarrow>
      (\<exists>m. eval_missing sqlite left right f = Inr m \<and> dom m = R - L \<and>
           (\<forall>h\<in>R - L. m h = Some (find_filepaths_for_hash right h)))"
  proof (intro impI, elim conjE)
    assume l: "unique_hashes sqlite left f = Inr L" and r: "unique_hashes sqlite right f = Inr R"
      and small: "card (R - L) \<le> 5000"
    let ?m = "\<lambda>hash. if hash \<in> R - L then Some (find_filepaths_for_hash right hash) else None"
    from small have "eval_missing sqlite left right f = Inr ?m"
      unfolding eval_missing_Inr [OF l r] by simp
    moreover have "dom ?m = R - L" by (rule dom_if_mem)
    moreover have "\<forall>h\<in>R - L. ?m h = Some (find_filepaths_for_hash right h)" by simp
    ultimately show "\<exists>m. eval_missing sqlite left right f = Inr m \<and> dom m = R - L \<and>
           (\<forall>h\<in>R - L. m h = Some (find_filepaths_for_hash right h))"
      by (intro exI [of _ ?m] conjI)
  qed
  have c3: "unique_hashes sqlite left f = Inl err \<longrightarrow> eval_missing sqlite left right f = Inl err"
    by (simp add: eval_missing_left_fails)
  have c4: "unique_hashes sqlite left f = Inr L \<and> unique_hashes sqlite right f = Inl err \<longrightarrow>
      eval_missing sqlite left right f = Inl err"
    by (simp add: eval_missing_right_fails)
  have c5: "quote_free (sql f) \<longrightarrow>
      (\<exists>L R. unique_hashes sqlite left f = Inr L \<and> unique_hashes sqlite right f = Inr R)"
    by (simp add: unique_hashes_def)
  from c1 c2 c3 c4 c5 show ?thesis by (intro conjI)
qed

theorem eval_missing_threshold_witness:
  "unique_hashes sqlite_refuses idx_empty (Filter_init [] []) = Inr {} \<and>
   unique_hashes sqlite_refuses idx_big (Filter_init [] []) =
     Inr ((\<lambda>n. replicate n (CHR ''a'')) ` {0..<5001}) \<and>
   5000 < card ((\<lambda>n. replicate n (CHR ''a'')) ` {0..<5001} - {}) \<and>
   eval_missing sqlite_refuses idx_empty idx_big (Filter_init [] []) =
     Inl (RuntimeError ''Abort: too many hashes'') \<and>
   unique_hashes sqlite_refuses idx1 (Filter_init [] []) = Inr {''eb61'', ''0cc1''} \<and>
   unique_hashes sqlite_refuses idx3 (Filter_init [] []) = Inr {''h1'', ''h2''} \<and>
   card ({''h1'', ''h2''} - {''eb61'', ''0cc1''}) \<le> 5000 \<and>
   (\<exists>m. eval_missing sqlite_refuses idx1 idx3 (Filter_init [] []) = Inr m \<and>
        m ''h1'' = Some [''a.txt''] \<and> m ''eb61'' = None) \<and>
   \<not> quote_free (sql filter_quote) \<and>
   unique_hashes sqlite_refuses idx1 filter_quote = Inl OperationalError \<and>
   eval_missing sqlite_refuses idx1 idx3 filter_quote = Inl OperationalError \<and>
   unique_hashes sqlite_picky idx_empty filter_quote = Inr {} \<and>
   unique_hashes sqlite_picky idx3 filter_quote = Inl OperationalError \<and>
   eval_missing sqlite_picky idx_empty idx3 filter_quote = Inl OperationalError \<and>
   quote_free (sql (Filter_init [] []))"
proof -
  let ?F = "Filter_init [] []"
  let ?B = "(\<lambda>n. replicate n (CHR ''a'')) ` {0..<5001}"
  note ue = unique_hashes_idx_empty [of sqlite_refuses]
  note ub = unique_hashes_idx_big [of sqlite_refuses]
  have big: "5000 < card (?B - {})"
    by (simp only: Diff_empty card_hashes_idx_big)
  have u3: "unique_hashes sqlite_refuses idx3 ?F = Inr {''h1'', ''h2''}"
    by (simp add: unique_hashes_def idx3_def table_def Filter_init_def)
  have u1: "unique_hashes sqlite_refuses idx1 ?F = Inr {''eb61'', ''0cc1''}"
    by (simp add: unique_hashes_def idx1_def table_def Filter_init_def)
  have d: "{''h1'', ''h2''} - {''eb61'', ''0cc1''} = {''h1'', ''h2''}" by auto
  have small: "card ({''h1'', ''h2''} - {''eb61'', ''0cc1''}) \<le> 5000"
    unfolding d by simp
  have fp: "find_filepaths_for_hash idx3 ''h1'' = [''a.txt'']"
    by (simp add: find_filepaths_for_hash_def idx3_def table_def)
  have nq: "\<not> quote_free (sql filter_quote)"
    by (simp add: filter_quote_def Filter_init_def whitecard_to_like_def replace_char_def)
  have q1: "unique_hashes sqlite_refuses idx1 filter_quote = Inl OperationalError"
    using nq by (simp add: unique_hashes_def sqlite_refuses_def)
  have q2: "unique_hashes sqlite_picky idx_empty filter_quote = Inr {}"
    using nq by (simp add: unique_hashes_def sqlite_picky_def idx_empty_def table_def)
  have q3: "unique_hashes sqlite_picky idx3 filter_quote = Inl OperationalError"
    using nq by (simp add: unique_hashes_def sqlite_picky_def idx3_def table_def)
  have qf: "quote_free (sql ?F)" by (simp add: Filter_init_def)
  have e1: "eval_missing sqlite_refuses idx_empty idx_big ?F =
     Inl (RuntimeError ''Abort: too many hashes'')"
    by (rule eval_missing_threshold [where sqlite = sqlite_refuses and left = idx_empty
          and right = idx_big and f = ?F and L = "{}" and R = ?B,
          THEN conjunct1, THEN mp, OF conjI [OF ue conjI [OF ub big]]])
  have "\<exists>m. eval_missing sqlite_refuses idx1 idx3 ?F = Inr m \<and>
    dom m = {''h1'', ''h2''} - {''eb61'', ''0cc1''} \<and>
    (\<forall>h\<in>{''h1'', ''h2''} - {''eb61'', ''0cc1''}. m h = Some (find_filepaths_for_hash idx3 h))"
    by (rule eval_missing_threshold [where sqlite = sqlite_refuses and left = idx1
          and right = idx3 and f = ?F and L = "{''eb61'', ''0cc1''}" and R = "{''h1'', ''h2''}",
          THEN conjunct2, THEN conjunct1, THEN mp, OF conjI [OF u1 conjI [OF u3 small]]])
  then obtain m where m: "eval_missing sqlite_refuses idx1 idx3 ?F = Inr m \<and>
    dom m = {''h1'', ''h2''} - {''eb61'', ''0cc1''} \<and>
    (\<forall>h\<in>{''h1'', ''h2''} - {''eb61'', ''0cc1''}. m h = Some (find_filepaths_for_hash idx3 h))" ..
  note ma = m [THEN conjunct1]
  note mb = m [THEN conjunct2, THEN conjunct1]
  note mc = m [THEN conjunct2, THEN conjunct2]
  have "''h1'' \<in> {''h1'', ''h2''} - {''eb61'', ''0cc1''}" unfolding d by simp
  from bspec [OF mc this] have m1: "m ''h1'' = Some [''a.txt'']" by (simp only: fp)
  have m2: "m ''eb61'' = None"
  proof -
    have "''eb61'' \<notin> dom m" unfolding mb d by simp
    then show ?thesis by (simp only: domIff not_not)
  qed
  from ma m1 m2 have ex: "\<exists>m. eval_missing sqlite_refuses idx1 idx3 ?F = Inr m \<and>
        m ''h1'' = Some [''a.txt''] \<and> m ''eb61'' = None"
    by (intro exI [of _ m] conjI)
  have e3: "eval_missing sqlite_refuses idx1 idx3 filter_quote = Inl OperationalError"
    by (rule eval_missing_threshold [where sqlite = sqlite_refuses and left = idx1
          and right = idx3 and f = filter_quote and err = OperationalError,
          THEN conjunct2, THEN conjunct2, THEN conjunct1, THEN mp, OF q1])
  have e4: "eval_missing sqlite_picky idx_empty idx3 filter_quote = Inl OperationalError"
    by (rule eval_missing_threshold [where sqlite = sqlite_picky and left = idx_empty
          and right = idx3 and f = filter_quote and err = OperationalError and L = "{}",
          THEN conjunct2, THEN conjunct2, THEN conjunct2, THEN conjunct1, THEN mp,
          OF conjI [OF q2 q3]])
  show ?thesis
    by (rule conjI [OF ue conjI [OF ub conjI [OF big conjI [OF e1 conjI [OF u1 conjI [OF u3
          conjI [OF small conjI [OF ex conjI [OF nq conjI [OF q1 conjI [OF e3 conjI [OF q2
          conjI [OF q3 conjI [OF e4 qf]]]]]]]]]]]]]])
qed


section \<open>The scan and the open transaction\<close>

lemma table_pend: "table c = committed c @ pend c"
  by (simp add: table_def pend_def)

lemma add_Inr:
  assumes "add idx e = Inr idxm"
  shows "root idxm = root idx \<and> committed (conn idxm) = committed (conn idx) \<and>
   pend (conn idxm) = pend (conn idx) @ [tuple_getter e]"
proof -
  define c where "c = (conn idx)\<lparr>pending := Some (pend (conn idx) @ [tuple_getter e])\<rparr>"
  from assms have idxm: "idxm = idx\<lparr>conn := c\<rparr>"
    by (auto simp: add_def execute_insert_def pend_def c_def split: if_splits option.splits)
  have "committed c = committed (conn idx)" "pend c = pend (conn idx) @ [tuple_getter e]"
    by (simp_all add: c_def pend_def)
  then show ?thesis unfolding idxm by simp
qed

lemma accepted_files_rejected:
  "\<not> test f (path_join dir (name entry)) \<Longrightarrow>
   accepted_files f dir (entry # rest) = accepted_files f dir rest"
proof (cases entry)
  case (Dir nm listing)
  assume "\<not> test f (path_join dir (name entry))"
  with Dir show ?thesis by (cases listing) simp_all
qed simp_all

lemma scan_ok_refl: "scan_ok md5hex relpath f dir nodes idx (Some err) idx"
  by (simp add: scan_ok_def)

lemma scan_ok_Nil: "scan_ok md5hex relpath f dir [] idx None idx"
  by (simp add: scan_ok_def)

lemma scan_ok_skip:
  "accepted_files f dir (entry # rest) = accepted_files f dir rest \<Longrightarrow>
   scan_ok md5hex relpath f dir rest idx exc idx' \<Longrightarrow>
   scan_ok md5hex relpath f dir (entry # rest) idx exc idx'"
  by (simp add: scan_ok_def)

lemma scan_ok_file:
  assumes "test f (path_join dir nm)"
    and "entry_for_path md5hex relpath idx (path_join dir nm) content sz = Inr e"
    and "add idx e = Inr idxm"
    and "scan_ok md5hex relpath f dir rest idxm exc idx'"
  shows "scan_ok md5hex relpath f dir (File nm content sz # rest) idx exc idx'"
proof -
  from assms(2) have row: "tuple_getter e = file_row md5hex relpath (root idx) (path_join dir nm, content, sz)"
    by (auto simp: entry_for_path_def tuple_getter_def file_row_def split: option.splits)
  note a = add_Inr [OF assms(3)]
  from assms(4) a obtain new sfx where
    n: "pend (conn idx') = (pend (conn idx) @ [tuple_getter e]) @ new"
      "map (file_row md5hex relpath (root idx)) (accepted_files f dir rest) = new @ sfx"
      "exc = None \<longrightarrow> sfx = []"
    and r: "root idx' = root idx" "committed (conn idx') = committed (conn idx)"
    by (auto simp: scan_ok_def)
  from n(1) have "pend (conn idx') = pend (conn idx) @ (tuple_getter e # new)" by simp
  moreover from n(2) row assms(1)
  have "map (file_row md5hex relpath (root idx)) (accepted_files f dir (File nm content sz # rest)) =
      (tuple_getter e # new) @ sfx" by simp
  ultimately show ?thesis using r n(3) unfolding scan_ok_def by blast
qed

lemma scan_ok_dir_fail:
  assumes "test f (path_join dir nm)"
    and "scan_ok md5hex relpath f (path_join dir nm) children idx (Some err) idxm"
  shows "scan_ok md5hex relpath f dir (Dir nm (Some children) # rest) idx (Some err) idxm"
proof -
  from assms(2) obtain new sfx where
    n: "pend (conn idxm) = pend (conn idx) @ new"
      "map (file_row md5hex relpath (root idx)) (accepted_files f (path_join dir nm) children) = new @ sfx"
    and r: "root idxm = root idx" "committed (conn idxm) = committed (conn idx)"
    by (auto simp: scan_ok_def)
  from n(2) assms(1)
  have "map (file_row md5hex relpath (root idx)) (accepted_files f dir (Dir nm (Some children) # rest)) =
      new @ (sfx @ map (file_row md5hex relpath (root idx)) (accepted_files f dir rest))"
    by simp
  with n(1) r show ?thesis unfolding scan_ok_def by blast
qed

lemma scan_ok_dir_ok:
  assumes "test f (path_join dir nm)"
    and "scan_ok md5hex relpath f (path_join dir nm) children idx None idxm"
    and "scan_ok md5hex relpath f dir rest idxm exc idx'"
  shows "scan_ok md5hex relpath f dir (Dir nm (Some children) # rest) idx exc idx'"
proof -
  from assms(2) have
    n1: "pend (conn idxm) = pend (conn idx) @
        map (file_row md5hex relpath (root idx)) (accepted_files f (path_join dir nm) children)"
    and r1: "root idxm = root idx" "committed (conn idxm) = committed (conn idx)"
    by (auto simp: scan_ok_def)
  from assms(3) r1 obtain new sfx where
    n: "pend (conn idx') = pend (conn idxm) @ new"
      "map (file_row md5hex relpath (root idx)) (accepted_files f dir rest) = new @ sfx"
      "exc = None \<longrightarrow> sfx = []"
    and r: "root idx' = root idx" "committed (conn idx') = committed (conn idx)"
    by (auto simp: scan_ok_def)
  let ?ch = "map (file_row md5hex relpath (root idx)) (accepted_files f (path_join dir nm) children)"
  from n(1) n1 have "pend (conn idx') = pend (conn idx) @ (?ch @ new)" by simp
  moreover from n(2) assms(1)
  have "map (file_row md5hex relpath (root idx)) (accepted_files f dir (Dir nm (Some children) # rest)) =
      (?ch @ new) @ sfx" by simp
  ultimately show ?thesis using r n(3) unfolding scan_ok_def by blast
qed

lemma index_dir_scan_ok:
  "index_dir md5hex relpath f dir nodes idx = (exc, idx') \<Longrightarrow>
   scan_ok md5hex relpath f dir nodes idx exc idx'"
proof (induction md5hex relpath f dir nodes idx arbitrary: exc idx' rule: index_dir.induct)
  case (1 md5hex relpath f dir idx)
  then show ?case by (auto simp: scan_ok_Nil)
next
  case (2 md5hex relpath f dir entry rest idx)
  let ?path = "path_join dir (name entry)"
  show ?case
  proof (cases "test f ?path")
    case False
    with "2.prems" have "index_dir md5hex relpath f dir rest idx = (exc, idx')" by simp
    with "2.IH"(1) False have "scan_ok md5hex relpath f dir rest idx exc idx'" by simp
    with accepted_files_rejected [OF False] show ?thesis by (rule scan_ok_skip)
  next
    case True
    show ?thesis
    proof (cases entry)
      case (File nm content sz)
      with True have t: "test f (path_join dir nm)" by simp
      show ?thesis
      proof (cases "entry_for_path md5hex relpath idx ?path content sz")
        case (Inl err)
        with "2.prems" True File show ?thesis by (auto simp: scan_ok_refl)
      next
        case (Inr e)
        show ?thesis
        proof (cases "add idx e")
          case (Inl err)
          with "2.prems" True File Inr show ?thesis by (auto simp: scan_ok_refl)
        next
          case a: (Inr idxm)
          with "2.prems" True File Inr
          have "index_dir md5hex relpath f dir rest idxm = (exc, idx')" by simp
          with "2.IH"(2) True File Inr a
          have sc: "scan_ok md5hex relpath f dir rest idxm exc idx'" by simp
          from Inr File
          have e: "entry_for_path md5hex relpath idx (path_join dir nm) content sz = Inr e"
            by simp
          show ?thesis unfolding File by (rule scan_ok_file [OF t e a sc])
        qed
      qed
    next
      case (Dir nm listing)
      with True have t: "test f (path_join dir nm)" by simp
      show ?thesis
      proof (cases listing)
        case None
        with "2.prems" True Dir show ?thesis by (auto simp: scan_ok_refl)
      next
        case (Some children)
        obtain exc1 idxm where r1: "index_dir md5hex relpath f ?path children idx = (exc1, idxm)"
          by (cases "index_dir md5hex relpath f ?path children idx")
        with "2.IH"(3) True Dir Some
        have "scan_ok md5hex relpath f ?path children idx exc1 idxm" by simp
        with Dir have s1: "scan_ok md5hex relpath f (path_join dir nm) children idx exc1 idxm"
          by simp
        show ?thesis
        proof (cases exc1)
          case None
          with "2.prems" True Dir Some r1
          have "index_dir md5hex relpath f dir rest idxm = (exc, idx')" by simp
          with "2.IH"(4) True Dir Some r1 None
          have sc: "scan_ok md5hex relpath f dir rest idxm exc idx'" by simp
          from s1 None
          have s1': "scan_ok md5hex relpath f (path_join dir nm) children idx None idxm"
            by simp
          show ?thesis unfolding Dir Some by (rule scan_ok_dir_ok [OF t s1' sc])
        next
          case (Some err)
          with "2.prems" True Dir \<open>listing = Some children\<close> r1
          have ex: "exc = Some err" "idx' = idxm" by simp_all
          from s1 Some
          have s1': "scan_ok md5hex relpath f (path_join dir nm) children idx (Some err) idxm"
            by simp
          show ?thesis unfolding Dir \<open>listing = Some children\<close> ex
            by (rule scan_ok_dir_fail [OF t s1'])
        qed
      qed
    next
      case (Other nm)
      with "2.prems" True have "index_dir md5hex relpath f dir rest idx = (exc, idx')" by simp
      with "2.IH"(5) True Other have "scan_ok md5hex relpath f dir rest idx exc idx'" by simp
      moreover from Other have "accepted_files f dir (entry # rest) = accepted_files f dir rest"
        by simp
      ultimately show ?thesis by (rule scan_ok_skip [rotated])
    qed
  qed
qed

lemma accepted_files_under:
  "(p, c, s) \<in> set (accepted_files f dir nodes) \<Longrightarrow>
   \<exists>ancs. (p, ancs) \<in> set (files_under dir nodes) \<and> test f p \<and> list_all (test f) ancs"
proof (induction f dir nodes rule: accepted_files.induct)
  case (4 f dir nm children rest)
  show ?case
  proof (cases "test f (path_join dir nm) \<and> (p, c, s) \<in> set (accepted_files f (path_join dir nm) children)")
    case True
    with "4.IH"(1) obtain ancs where "(p, ancs) \<in> set (files_under (path_join dir nm) children)"
      "test f p" "list_all (test f) ancs" by blast
    with True have "(p, path_join dir nm # ancs) \<in> set (files_under dir (Dir nm (Some children) # rest))"
      "test f p" "list_all (test f) (path_join dir nm # ancs)" by force+
    then show ?thesis by blast
  next
    case False
    with "4.prems" have "(p, c, s) \<in> set (accepted_files f dir rest)" by (auto split: if_splits)
    with "4.IH"(2) show ?thesis by auto
  qed
qed (auto split: if_splits)

lemma index_dir_rejected:
  "\<not> test f (path_join dir (name entry)) \<Longrightarrow>
   index_dir md5hex relpath f dir (entry # rest) idx = index_dir md5hex relpath f dir rest idx"
  by simp

lemma index_dir_new_rows:
  assumes "index_dir md5hex relpath f dir nodes idx = (exc, idx')"
  shows "\<exists>new. table (conn idx') = table (conn idx) @ new \<and>
     (\<forall>r\<in>set new. \<exists>(p, ancs)\<in>set (files_under dir nodes).
         fst r = relpath p (root idx) \<and> test f p \<and> list_all (test f) ancs)"
proof -
  from index_dir_scan_ok [OF assms] obtain new sfx where
    c: "committed (conn idx') = committed (conn idx)"
    and n: "pend (conn idx') = pend (conn idx) @ new"
    and a: "map (file_row md5hex relpath (root idx)) (accepted_files f dir nodes) = new @ sfx"
    by (auto simp: scan_ok_def)
  have "\<exists>(p, ancs)\<in>set (files_under dir nodes).
         fst r = relpath p (root idx) \<and> test f p \<and> list_all (test f) ancs"
    if "r \<in> set new" for r
  proof -
    from that a have "r \<in> set (map (file_row md5hex relpath (root idx)) (accepted_files f dir nodes))"
      by simp
    then obtain p c s where m: "(p, c, s) \<in> set (accepted_files f dir nodes)"
      and r: "r = file_row md5hex relpath (root idx) (p, c, s)" by auto
    from accepted_files_under [OF m] obtain ancs where
      "(p, ancs) \<in> set (files_under dir nodes)" "test f p" "list_all (test f) ancs" by blast
    moreover from r have "fst r = relpath p (root idx)" by (simp add: file_row_def)
    ultimately show ?thesis by blast
  qed
  moreover from c n have "table (conn idx') = table (conn idx) @ new"
    by (simp add: table_pend)
  ultimately show ?thesis by blast
qed

section \<open>Filtering during the scan\<close>

lemma index_dir_tree1:
  "index_dir (\<lambda>b. b) strip_root (Filter_init [] [''r/skip'']) ''r'' tree1 (Index_new ''r'') =
     (Some OSError,
      \<lparr>conn = \<lparr>committed = [], pending = Some [(''b.txt'', 2, ''B'')]\<rparr>, root = ''r''\<rparr>)"
  by (simp add: tree1_def Index_new_def test_Filter_init fnmatchcase_def path_join_def
      entry_for_path_def add_def execute_insert_def tuple_getter_def fits_int64_def
      strip_root_def)

text \<open>
  C9. The scan tests the path of every listed entry before it looks at the entry's kind:
  an entry whose path the filter rejects is skipped whatever it is (a file that cannot be
  read or a directory that cannot be listed raises nothing), and the loop goes on with
  the rest of the listing. A rejected directory is not descended into: every row the scan
  inserts comes from a file of the tree whose own path and the paths of all the
  directories enclosing it are accepted by the filter.
\<close>

theorem rejected_entries_skipped:
  "(\<not> test f (path_join dir (name entry)) \<longrightarrow>
      index_dir md5hex relpath f dir (entry # rest) idx =
      index_dir md5hex relpath f dir rest idx) \<and>
   (index_dir md5hex relpath f dir nodes idx = (exc, idx') \<longrightarrow>
      (\<exists>new. table (conn idx') = table (conn idx) @ new \<and>
         (\<forall>r\<in>set new. \<exists>(p, ancs)\<in>set (files_under dir nodes).
             fst r = relpath p (root idx) \<and> test f p \<and> list_all (test f) ancs)))"
  using index_dir_rejected [of f dir entry md5hex relpath rest idx]
    index_dir_new_rows [of md5hex relpath f dir nodes idx exc idx']
  by blast

theorem rejected_entries_skipped_witness:
  "\<not> test (Filter_init [] [''r/skip'']) (path_join ''r'' (name (Dir ''skip'' None))) \<and>
   index_dir (\<lambda>b. b) strip_root (Filter_init [] [''r/skip'']) ''r''
     (Dir ''skip'' None # tl tree1) (Index_new ''r'') =
   index_dir (\<lambda>b. b) strip_root (Filter_init [] [''r/skip'']) ''r'' (tl tree1) (Index_new ''r'') \<and>
   index_dir (\<lambda>b. b) strip_root (Filter_init [] [''r/skip'']) ''r'' tree1 (Index_new ''r'') =
     (Some OSError,
      \<lparr>conn = \<lparr>committed = [], pending = Some [(''b.txt'', 2, ''B'')]\<rparr>, root = ''r''\<rparr>) \<and>
   (''r/skip/a.txt'', [''r/skip'']) \<in> set (files_under ''r'' tree1) \<and>
   (\<exists>new. [(''b.txt'', 2, ''B'')] = new \<and>
      (\<forall>r\<in>set new. \<exists>(p, ancs)\<in>set (files_under ''r'' tree1).
          fst r = strip_root p ''r'' \<and> test (Filter_init [] [''r/skip'']) p \<and>
          list_all (test (Filter_init [] [''r/skip''])) ancs))"
proof -
  let ?F = "Filter_init [] [''r/skip'']"
  let ?X = "\<lparr>conn = \<lparr>committed = [], pending = Some [(''b.txt'', 2, ''B'')]\<rparr>, root = ''r''\<rparr>"
  have rej: "\<not> test ?F (path_join ''r'' (name (Dir ''skip'' None)))"
    by (simp add: test_Filter_init fnmatchcase_def path_join_def)
  have fu: "(''r/skip/a.txt'', [''r/skip'']) \<in> set (files_under ''r'' tree1)"
    by (simp add: tree1_def path_join_def)
  note run = index_dir_tree1
  from rejected_entries_skipped [where f = ?F and dir = "''r''" and entry = "Dir ''skip'' None"
      and md5hex = "\<lambda>b. b" and relpath = strip_root and rest = "tl tree1"
      and idx = "Index_new ''r''" and nodes = tree1 and exc = "Some OSError" and idx' = ?X]
    rej run
  have skip: "index_dir (\<lambda>b. b) strip_root ?F ''r'' (Dir ''skip'' None # tl tree1) (Index_new ''r'') =
      index_dir (\<lambda>b. b) strip_root ?F ''r'' (tl tree1) (Index_new ''r'')"
    and new: "\<exists>new. table (conn ?X) = table (conn (Index_new ''r'')) @ new \<and>
      (\<forall>r\<in>set new. \<exists>(p, ancs)\<in>set (files_under ''r'' tree1).
          fst r = strip_root p (root (Index_new ''r'')) \<and> test ?F p \<and> list_all (test ?F) ancs)"
    by blast+
  from new have new': "\<exists>new. [(''b.txt'', 2, ''B'')] = new \<and>
      (\<forall>r\<in>set new. \<exists>(p, ancs)\<in>set (files_under ''r'' tree1).
          fst r = strip_root p ''r'' \<and> test ?F p \<and> list_all (test ?F) ancs)"
    by (simp add: table_def Index_new_def)
  from rej skip run fu new' show ?thesis by (intro conjI)
qed

section \<open>The build session\<close>

lemma conn_exit_facts:
  "pending (conn_exit exc c) = None \<and>
   committed (conn_exit exc c) = committed c @ (if exc = None then pend c else [])"
  by (simp add: conn_exit_def pend_def split: option.splits)

lemma table_conn_exit:
  "table (conn_exit exc c) = committed c @ (if exc = None then pend c else [])"
  using conn_exit_facts [of exc c] by (simp add: table_def)

lemma build_tree1:
  "build_session (\<lambda>b. b) strip_root (Filter_init [] [''r/skip'']) ''r'' (Some tree1) (Index_new ''r'') =
     (Some OSError, \<lparr>conn = \<lparr>committed = [], pending = None\<rparr>, root = ''r''\<rparr>)"
  by (simp add: build_session_def tree1_def Index_new_def test_Filter_init fnmatchcase_def
      path_join_def entry_for_path_def add_def execute_insert_def tuple_getter_def fits_int64_def
      strip_root_def Index_exit_def conn_exit_def)

lemma build_tree1_ok:
  "build_session (\<lambda>b. b) strip_root (Filter_init [] [''r/skip'']) ''r'' (Some (butlast tree1))
     (Index_new ''r'') =
     (None, \<lparr>conn = \<lparr>committed = [(''b.txt'', 2, ''B'')], pending = None\<rparr>, root = ''r''\<rparr>)"
  by (simp add: build_session_def tree1_def Index_new_def test_Filter_init fnmatchcase_def
      path_join_def entry_for_path_def add_def execute_insert_def tuple_getter_def fits_int64_def
      strip_root_def Index_exit_def conn_exit_def)

text \<open>
  C7. A build session on a store with no open transaction ends with no open transaction
  and is atomic: when the walk raises, the table is what it was before the session (every
  row inserted so far is discarded); when the walk completes, the table is the old one
  followed by the rows of all accepted files, in scan order. The \<open>index\<close> command runs
  the session on a new, empty store.
\<close>

theorem build_session_atomic:
  assumes "pending (conn idx) = None"
    and "build_session md5hex relpath f root_dir listing idx = (exc, idx')"
  shows "pending (conn idx') = None \<and> root idx' = root idx \<and>
     (exc \<noteq> None \<longrightarrow> table (conn idx') = table (conn idx)) \<and>
     (exc = None \<longrightarrow>
        (\<exists>nodes. listing = Some nodes \<and>
           table (conn idx') = table (conn idx) @
             map (file_row md5hex relpath (root idx)) (accepted_files f root_dir nodes)))"
proof -
  from assms(1) have p0: "pend (conn idx) = []" by (simp add: pend_def)
  show ?thesis
  proof (cases listing)
    case None
    with assms(2) have "exc = Some OSError" "idx' = Index_exit (Some OSError) idx"
      by (auto simp: build_session_def)
    then show ?thesis
      using conn_exit_facts [of "Some OSError" "conn idx"]
        table_conn_exit [of "Some OSError" "conn idx"] p0
      by (simp add: Index_exit_def table_pend [of "conn idx"])
  next
    case (Some nodes)
    obtain idxm where run: "index_dir md5hex relpath f root_dir nodes idx = (exc, idxm)"
      and fin: "idx' = Index_exit exc idxm"
      using assms(2) Some by (auto simp: build_session_def split: prod.splits)
    from index_dir_scan_ok [OF run] p0 obtain new sfx where
      r: "root idxm = root idx" and c: "committed (conn idxm) = committed (conn idx)"
      and n: "pend (conn idxm) = new"
      and a: "map (file_row md5hex relpath (root idx)) (accepted_files f root_dir nodes) = new @ sfx"
      and s: "exc = None \<longrightarrow> sfx = []"
      by (auto simp: scan_ok_def)
    have t: "table (conn idx') = committed (conn idx) @ (if exc = None then new else [])"
      unfolding fin using table_conn_exit [of exc "conn idxm"] c n by (simp add: Index_exit_def)
    have c1: "pending (conn idx') = None"
      unfolding fin using conn_exit_facts [of exc "conn idxm"] by (simp add: Index_exit_def)
    have c2: "root idx' = root idx" unfolding fin using r by (simp add: Index_exit_def)
    have c3: "exc \<noteq> None \<longrightarrow> table (conn idx') = table (conn idx)"
      using t p0 by (simp add: table_pend)
    have c4: "exc = None \<longrightarrow>
        (\<exists>nodes. listing = Some nodes \<and>
           table (conn idx') = table (conn idx) @
             map (file_row md5hex relpath (root idx)) (accepted_files f root_dir nodes))"
      using t p0 a s Some by (simp add: table_pend)
    from c1 c2 c3 c4 show ?thesis by blast
  qed
qed

theorem build_session_atomic_witness:
  "pending (conn (Index_new ''r'')) = None \<and>
   index (\<lambda>b. b) strip_root (Filter_init [] [''r/skip'']) ''r'' (Some tree1) =
     (Some OSError, \<lparr>conn = \<lparr>committed = [], pending = None\<rparr>, root = ''r''\<rparr>) \<and>
   table (conn (snd (index (\<lambda>b. b) strip_root (Filter_init [] [''r/skip'']) ''r'' (Some tree1)))) =
     table (conn (Index_new ''r'')) \<and>
   index (\<lambda>b. b) strip_root (Filter_init [] [''r/skip'']) ''r'' (Some (butlast tree1)) =
     (None, \<lparr>conn = \<lparr>committed = [(''b.txt'', 2, ''B'')], pending = None\<rparr>, root = ''r''\<rparr>) \<and>
   accepted_files (Filter_init [] [''r/skip'']) ''r'' (butlast tree1) =
     [(''r/b.txt'', Some ''B'', 2)]"
proof -
  have p: "pending (conn (Index_new ''r'')) = None" by (simp add: Index_new_def)
  have af: "accepted_files (Filter_init [] [''r/skip'']) ''r'' (butlast tree1) =
     [(''r/b.txt'', Some ''B'', 2)]"
    by (simp add: tree1_def test_Filter_init fnmatchcase_def path_join_def)
  from build_session_atomic [OF p build_tree1]
  have same: "table (conn \<lparr>conn = \<lparr>committed = [], pending = None\<rparr>, root = ''r''\<rparr>) =
      table (conn (Index_new ''r''))" by simp
  from build_session_atomic [OF p build_tree1_ok]
  have "table (conn \<lparr>conn = \<lparr>committed = [(''b.txt'', 2, ''B'')], pending = None\<rparr>, root = ''r''\<rparr>) =
      table (conn (Index_new ''r'')) @
      map (file_row (\<lambda>b. b) strip_root (root (Index_new ''r'')))
        (accepted_files (Filter_init [] [''r/skip'']) ''r'' (butlast tree1))" by simp
  with p af same build_tree1 build_tree1_ok show ?thesis
    by (simp add: index_def)
qed

section \<open>Adding and enumerating entries\<close>

lemma Entry_of_tuple_getter: "Entry_of (tuple_getter e) = e"
  by (cases e) (simp add: Entry_of_def tuple_getter_def)

lemma add_all_Inr:
  "add_all idx0 es = Inr idx \<Longrightarrow>
   root idx = root idx0 \<and> committed (conn idx) = committed (conn idx0) \<and>
   pend (conn idx) = pend (conn idx0) @ map tuple_getter es"
proof (induction es arbitrary: idx0)
  case Nil
  then show ?case by simp
next
  case (Cons e es)
  from Cons.prems obtain idxm where a: "add idx0 e = Inr idxm" and r: "add_all idxm es = Inr idx"
    by (auto split: sum.splits)
  from add_Inr [OF a] Cons.IH [OF r] show ?case by simp
qed

lemma add_all_total:
  "list_all (\<lambda>e. fits_int64 (fileSize e)) es \<Longrightarrow> \<exists>idx. add_all idx0 es = Inr idx"
proof (induction es arbitrary: idx0)
  case Nil
  then show ?case by simp
next
  case (Cons e es)
  then have "fits_int64 (fileSize e)" by simp
  then obtain idxm where "add idx0 e = Inr idxm"
    by (simp add: add_def execute_insert_def tuple_getter_def)
  with Cons show ?case by simp
qed

text \<open>
  C8. Every sequence of entries whose sizes fit SQLite's integers can be added to a new
  store, and for every sequence of entries that has been added to a new store,
  \<open>entries\<close> enumerates exactly those entries, each with the same path, size and hash,
  in the order of insertion, before the commit and after it.
\<close>

theorem add_entries_round_trip:
  "(list_all (\<lambda>e. fits_int64 (fileSize e)) es \<longrightarrow> (\<exists>idx. add_all (Index_new r) es = Inr idx)) \<and>
   (add_all (Index_new r) es = Inr idx \<longrightarrow>
      entries idx = es \<and> entries (Index_exit None idx) = es)"
proof -
  have "entries idx = es \<and> entries (Index_exit None idx) = es"
    if a: "add_all (Index_new r) es = Inr idx"
  proof -
    from add_all_Inr [OF a] have c: "committed (conn idx) = []"
      and p: "pend (conn idx) = map tuple_getter es"
      by (simp_all add: Index_new_def pend_def)
    then have "table (conn idx) = map tuple_getter es" by (simp add: table_pend)
    moreover from c p have "table (conn (Index_exit None idx)) = map tuple_getter es"
      by (simp add: Index_exit_def table_conn_exit)
    ultimately show ?thesis
      by (simp add: entries_def comp_def Entry_of_tuple_getter)
  qed
  with add_all_total [of es "Index_new r"] show ?thesis by blast
qed

theorem add_entries_round_trip_witness:
  "list_all (\<lambda>e. fits_int64 (fileSize e))
     [\<lparr>filePath = ''a/x.txt'', fileSize = 5, md5Hash = ''eb61''\<rparr>,
      \<lparr>filePath = ''a/x.txt'', fileSize = 7, md5Hash = ''0cc1''\<rparr>] \<and>
   add_all (Index_new ''r'')
     [\<lparr>filePath = ''a/x.txt'', fileSize = 5, md5Hash = ''eb61''\<rparr>,
      \<lparr>filePath = ''a/x.txt'', fileSize = 7, md5Hash = ''0cc1''\<rparr>] =
     Inr \<lparr>conn = \<lparr>committed = [], pending = Some [(''a/x.txt'', 5, ''eb61''), (''a/x.txt'', 7, ''0cc1'')]\<rparr>,
          root = ''r''\<rparr> \<and>
   entries \<lparr>conn = \<lparr>committed = [], pending = Some [(''a/x.txt'', 5, ''eb61''), (''a/x.txt'', 7, ''0cc1'')]\<rparr>,
          root = ''r''\<rparr> =
     [\<lparr>filePath = ''a/x.txt'', fileSize = 5, md5Hash = ''eb61''\<rparr>,
      \<lparr>filePath = ''a/x.txt'', fileSize = 7, md5Hash = ''0cc1''\<rparr>]"
proof -
  let ?es = "[\<lparr>filePath = ''a/x.txt'', fileSize = 5, md5Hash = ''eb61''\<rparr>,
      \<lparr>filePath = ''a/x.txt'', fileSize = 7, md5Hash = ''0cc1''\<rparr>]"
  let ?X = "\<lparr>conn = \<lparr>committed = [], pending = Some [(''a/x.txt'', 5, ''eb61''), (''a/x.txt'', 7, ''0cc1'')]\<rparr>,
          root = ''r''\<rparr>"
  have f: "list_all (\<lambda>e. fits_int64 (fileSize e)) ?es" by (simp add: fits_int64_def)
  have a: "add_all (Index_new ''r'') ?es = Inr ?X"
    by (simp add: Index_new_def add_def execute_insert_def tuple_getter_def fits_int64_def)
  from add_entries_round_trip [of ?es "''r''" ?X] a have "entries ?X = ?es" by blast
  with f a show ?thesis by (intro conjI)
qed

end
